theory Spec2Isabelle
  imports Main "HOL-Library.Monad_Syntax"
begin

section \<open>Ray partitions with deferred execution\<close>

text \<open>
  The first part embeds \<^verbatim>\<open>PandasOnRayDataframePartition\<close> of
  \<^verbatim>\<open>pandas_on_ray/partitioning/partition.py\<close>. Python objects that are shared and
  mutated (the object store of the backend, the metadata lists, the partitions, the
  counters and results of deferred nodes) live in an explicit store, a total function
  from addresses to contents with an allocation counter beside it. Every method takes
  the store and returns the new one. An \<^verbatim>\<open>IndexError\<close> of a metadata list is the
  value \<open>None\<close> of the option monad.
\<close>

subsection \<open>Values\<close>

text \<open>
  A metadata slot holds \<^verbatim>\<open>None\<close>, an int, a str or an \<^verbatim>\<open>ObjectIDType\<close>, the
  reference to a scalar that a remote call will produce.
\<close>

datatype mval = MNone | MInt int | MStr string | MRef nat

text \<open>
  The attribute \<^verbatim>\<open>_data_ref\<close> is a reference to a block in the object store or a
  \<^verbatim>\<open>DeferredExecution\<close>. The attributes of a node that never change (its source,
  the function, the flags, the number of outputs) travel with the reference; those that
  change (reference counter, memoized outcome) are in the store under \<open>de_id\<close>, the
  identity of the node. The function is the callable with its positional and keyword
  arguments bound; \<open>de_flat_args\<close> and \<open>de_flat_kwargs\<close> are \<open>None\<close> when the
  constructor is called without them.
\<close>

datatype 'v dexec =
  DeferredExecution (de_id: nat) (de_data: "'v data_ref") (de_func: "'v \<Rightarrow> 'v")
    (de_flat_args: "bool option") (de_flat_kwargs: "bool option") (de_num_returns: nat)
and 'v data_ref = Resolved nat | Deferred "'v dexec"

text \<open>The calls that reach the Remote Executor, in the order they are issued.\<close>

datatype rcall =
    ExecFunc nat
  | ExecNode nat
  | SlicedLen nat
  | IndexAndColumns nat

text \<open>Row and column labels of \<^verbatim>\<open>mask\<close>: a slice or a list of positions.\<close>

datatype labels = Slice "int option" "int option" "int option" | Labels "int list"

record 'v partition =
  data_ref :: "'v data_ref"
  meta :: nat
  meta_offset :: int

record 'v state =
  lazy_execution :: bool
  blocks :: "nat \<Rightarrow> 'v"
  next_block :: nat
  scalars :: "nat \<Rightarrow> mval"
  next_scalar :: nat
  calls :: "rcall list"
  nrows :: "'v \<Rightarrow> int"
  ncols :: "'v \<Rightarrow> int"
  worker_ip :: string
  compute_sliced_len :: "labels \<Rightarrow> mval \<Rightarrow> mval"
  iloc :: "labels \<Rightarrow> labels \<Rightarrow> 'v \<Rightarrow> 'v"
  ref_counter :: "nat \<Rightarrow> int"
  results :: "nat \<Rightarrow> (nat \<times> nat \<times> int) option"
  next_node :: nat
  metas :: "nat \<Rightarrow> mval list"
  next_meta :: nat
  parts :: "nat \<Rightarrow> 'v partition"
  next_part :: nat

text \<open>
  \<open>lazy_execution\<close> is \<^verbatim>\<open>LazyExecution.get()\<close>. \<open>nrows\<close>, \<open>ncols\<close> are
  \<^verbatim>\<open>len(df.index)\<close> and \<^verbatim>\<open>len(df.columns)\<close> of a block, \<open>worker_ip\<close> the address of
  the worker, \<open>compute_sliced_len\<close> the function of \<^verbatim>\<open>modin.pandas.indexing\<close>
  applied to the materialized length, \<open>iloc\<close> the selection of rows and columns of a
  block by the tabular library: they are parameters of the model.
\<close>

subsection \<open>The metadata list\<close>

text \<open>
  Modelled from the spec: \<^verbatim>\<open>MetaList\<close> of \<^verbatim>\<open>deferred_execution.py\<close> is missing. The
  Metadata Slot Array is a shared buffer, mutable in place at existing offsets, read and
  written by integer index; the partition addresses it with the offset, the offset plus
  one and \<^verbatim>\<open>-1\<close>, so an index follows Python's list indexing.
\<close>

definition py_index :: "'a list \<Rightarrow> int \<Rightarrow> nat option" where
  "py_index xs i =
     (let n = int (length xs)
      in if 0 \<le> i \<and> i < n then Some (nat i)
         else if - n \<le> i \<and> i < 0 then Some (nat (n + i))
         else None)"

definition MetaList :: "'v state \<Rightarrow> mval list \<Rightarrow> nat \<times> 'v state" where
  "MetaList s xs =
     (next_meta s, s\<lparr>metas := (metas s)(next_meta s := xs), next_meta := Suc (next_meta s)\<rparr>)"

definition meta_getitem :: "'v state \<Rightarrow> nat \<Rightarrow> int \<Rightarrow> mval option" where
  "meta_getitem s m i = map_option (\<lambda>k. metas s m ! k) (py_index (metas s m) i)"

definition meta_setitem :: "'v state \<Rightarrow> nat \<Rightarrow> int \<Rightarrow> mval \<Rightarrow> 'v state option" where
  "meta_setitem s m i v =
     map_option (\<lambda>k. s\<lparr>metas := (metas s)(m := (metas s m)[k := v])\<rparr>) (py_index (metas s m) i)"

subsection \<open>The Remote Executor\<close>

text \<open>\<^verbatim>\<open>RayWrapper.put\<close> stores a block, \<^verbatim>\<open>RayWrapper.materialize\<close> reads a scalar.\<close>

definition wrapper_put :: "'v state \<Rightarrow> 'v \<Rightarrow> nat \<times> 'v state" where
  "wrapper_put s v =
     (next_block s, s\<lparr>blocks := (blocks s)(next_block s := v), next_block := Suc (next_block s)\<rparr>)"

definition materialize :: "'v state \<Rightarrow> nat \<Rightarrow> mval" where
  "materialize s k = scalars s k"

definition new_scalar :: "'v state \<Rightarrow> mval \<Rightarrow> nat \<times> 'v state" where
  "new_scalar s v =
     (next_scalar s,
      s\<lparr>scalars := (scalars s)(next_scalar s := v), next_scalar := Suc (next_scalar s)\<rparr>)"

text \<open>
  Modelled from the spec: \<^verbatim>\<open>remote_exec_func\<close> of \<^verbatim>\<open>deferred_execution.py\<close> is
  missing. The Remote Executor runs the function on a worker and returns handles; the
  partition unpacks them as data, length, width and ip.
\<close>

definition remote_exec_func :: "'v state \<Rightarrow> ('v \<Rightarrow> 'v) \<Rightarrow> nat \<Rightarrow> (nat \<times> nat \<times> nat \<times> nat) \<times> 'v state" where
  "remote_exec_func s f h =
     (let v = f (blocks s h);
          (b, s1) = wrapper_put (s\<lparr>calls := calls s @ [ExecFunc h]\<rparr>) v;
          (l, s2) = new_scalar s1 (MInt (nrows s v));
          (w, s3) = new_scalar s2 (MInt (ncols s v));
          (i, s4) = new_scalar s3 (MStr (worker_ip s))
      in ((b, l, w, i), s4))"

text \<open>\<^verbatim>\<open>_get_index_and_columns.remote(df)\<close>: two handles, the rows and the columns.\<close>

definition get_index_and_columns :: "'v state \<Rightarrow> nat \<Rightarrow> (nat \<times> nat) \<times> 'v state" where
  "get_index_and_columns s h =
     (let v = blocks s h;
          (l, s1) = new_scalar (s\<lparr>calls := calls s @ [IndexAndColumns h]\<rparr>) (MInt (nrows s v));
          (w, s2) = new_scalar s1 (MInt (ncols s v))
      in ((l, w), s2))"


subsection \<open>Deferred Computation Nodes\<close>

text \<open>
  Modelled from the spec: the class \<^verbatim>\<open>DeferredExecution\<close> of
  \<^verbatim>\<open>deferred_execution.py\<close> is missing. A node is "apply function F with these
  arguments to the result of computation P", not yet sent; its reference count is
  incremented on every new owner, a partition or a dependent node, and decremented on
  owner destruction or successful drain. It is submitted to the Remote Executor once and
  memoized to its result: a later \<^verbatim>\<open>exec\<close> returns the same outcome. Draining a chain
  resolves the source first. The outcome is the handle of the result, a new metadata list
  with the row count, the column count and the worker location, and the offset 0.
\<close>

definition ref_count :: "'v state \<Rightarrow> 'v dexec \<Rightarrow> int \<Rightarrow> 'v state" where
  "ref_count s d diff =
     s\<lparr>ref_counter := (ref_counter s)(de_id d := ref_counter s (de_id d) + diff)\<rparr>"

definition new_de ::
  "'v state \<Rightarrow> 'v data_ref \<Rightarrow> ('v \<Rightarrow> 'v) \<Rightarrow> bool option \<Rightarrow> bool option \<Rightarrow> nat \<Rightarrow> 'v dexec \<times> 'v state" where
  "new_de s data f fa fk nr =
     (let n = next_node s;
          s1 = s\<lparr>ref_counter := (ref_counter s)(n := 0), results := (results s)(n := None),
                 next_node := Suc n\<rparr>
      in (DeferredExecution n data f fa fk nr,
          case data of Deferred src \<Rightarrow> ref_count s1 src 1 | Resolved h \<Rightarrow> s1))"

definition submit :: "'v state \<Rightarrow> nat \<Rightarrow> ('v \<Rightarrow> 'v) \<Rightarrow> nat \<Rightarrow> (nat \<times> nat \<times> int) \<times> 'v state" where
  "submit s n f h =
     (let v = f (blocks s h);
          (b, s1) = wrapper_put (s\<lparr>calls := calls s @ [ExecNode n]\<rparr>) v;
          (m, s2) = MetaList s1 [MInt (nrows s v), MInt (ncols s v), MStr (worker_ip s)]
      in ((b, m, 0), s2\<lparr>results := (results s2)(n := Some (b, m, 0))\<rparr>))"

fun de_exec :: "'v state \<Rightarrow> 'v dexec \<Rightarrow> (nat \<times> nat \<times> int) \<times> 'v state" where
  "de_exec s (DeferredExecution n (Resolved h) f fa fk nr) =
     (case results s n of
        Some r \<Rightarrow> (r, s)
      | None \<Rightarrow> submit s n f h)"
| "de_exec s (DeferredExecution n (Deferred d) f fa fk nr) =
     (case results s n of
        Some r \<Rightarrow> (r, s)
      | None \<Rightarrow>
          (case de_exec s d of
             ((h, m, off), s1) \<Rightarrow> submit (ref_count s1 d (- 1)) n f h))"

subsection \<open>The partition\<close>

text \<open>\<^verbatim>\<open>__init__\<close>: the new partition is allocated and its address returned.\<close>

definition init ::
  "'v state \<Rightarrow> 'v data_ref \<Rightarrow> mval \<Rightarrow> mval \<Rightarrow> mval \<Rightarrow> nat option \<Rightarrow> int \<Rightarrow> nat \<times> 'v state" where
  "init s data len wid ip_addr meta_arg meta_off =
     (let s1 = (case data of Deferred d \<Rightarrow> ref_count s d 1 | Resolved h \<Rightarrow> s);
          (m, off, s2) =
            (case meta_arg of
               None \<Rightarrow> (case MetaList s1 [len, wid, ip_addr] of (m, s') \<Rightarrow> (m, 0, s'))
             | Some m \<Rightarrow> (m, meta_off, s1));
          p = next_part s2
      in (p, s2\<lparr>parts := (parts s2)(p := \<lparr>data_ref = data, meta = m, meta_offset = off\<rparr>),
               next_part := Suc p\<rparr>))"

text \<open>\<^verbatim>\<open>__del__\<close>\<close>

definition del :: "'v state \<Rightarrow> nat \<Rightarrow> 'v state" where
  "del s p =
     (case data_ref (parts s p) of
        Deferred d \<Rightarrow> ref_count s d (- 1)
      | Resolved h \<Rightarrow> s)"

text \<open>The properties \<^verbatim>\<open>_length_cache\<close>, \<^verbatim>\<open>_width_cache\<close>, \<^verbatim>\<open>_ip_cache\<close> and their setters.\<close>

definition length_cache :: "'v state \<Rightarrow> nat \<Rightarrow> mval option" where
  "length_cache s p = meta_getitem s (meta (parts s p)) (meta_offset (parts s p))"

definition set_length_cache :: "'v state \<Rightarrow> nat \<Rightarrow> mval \<Rightarrow> 'v state option" where
  "set_length_cache s p v = meta_setitem s (meta (parts s p)) (meta_offset (parts s p)) v"

definition width_cache :: "'v state \<Rightarrow> nat \<Rightarrow> mval option" where
  "width_cache s p = meta_getitem s (meta (parts s p)) (meta_offset (parts s p) + 1)"

definition set_width_cache :: "'v state \<Rightarrow> nat \<Rightarrow> mval \<Rightarrow> 'v state option" where
  "set_width_cache s p v = meta_setitem s (meta (parts s p)) (meta_offset (parts s p) + 1) v"

definition ip_cache :: "'v state \<Rightarrow> nat \<Rightarrow> mval option" where
  "ip_cache s p = meta_getitem s (meta (parts s p)) (- 1)"

definition set_ip_cache :: "'v state \<Rightarrow> nat \<Rightarrow> mval \<Rightarrow> 'v state option" where
  "set_ip_cache s p v = meta_setitem s (meta (parts s p)) (- 1) v"

text \<open>
  \<^verbatim>\<open>apply\<close>. \<open>flat_args\<close> and \<open>flat_kwargs\<close> are the results of
  \<^verbatim>\<open>not has_list_or_de(args)\<close> and \<^verbatim>\<open>not has_list_or_de(kwargs.values())\<close>.
\<close>

definition apply_func :: "'v state \<Rightarrow> nat \<Rightarrow> ('v \<Rightarrow> 'v) \<Rightarrow> bool \<Rightarrow> bool \<Rightarrow> nat \<times> 'v state" where
  "apply_func s p f flat_args flat_kwargs =
     (if lazy_execution s then
        (case new_de s (data_ref (parts s p)) f None None 1 of
           (de, s1) \<Rightarrow> init s1 (Deferred de) MNone MNone MNone None 0)
      else
        (case data_ref (parts s p) of
           Resolved h \<Rightarrow>
             if flat_args \<and> flat_kwargs then
               (case remote_exec_func s f h of
                  ((b, l, w, i), s1) \<Rightarrow> init s1 (Resolved b) (MRef l) (MRef w) (MRef i) None 0)
             else
               (case new_de s (Resolved h) f (Some flat_args) (Some flat_kwargs) 1 of
                  (de, s1) \<Rightarrow>
                    (case de_exec (ref_count s1 de 1) de of
                       ((b, m, off), s2) \<Rightarrow> init s2 (Resolved b) MNone MNone MNone (Some m) off))
         | Deferred d \<Rightarrow>
             (case new_de s (Deferred d) f None None 1 of
                (de, s1) \<Rightarrow>
                  (case de_exec (ref_count s1 de 1) de of
                     ((b, m, off), s2) \<Rightarrow> init s2 (Resolved b) MNone MNone MNone (Some m) off))))"


definition drain_call_queue :: "'v state \<Rightarrow> nat \<Rightarrow> 'v state" where
  "drain_call_queue s p =
     (case data_ref (parts s p) of
        Resolved h \<Rightarrow> s
      | Deferred d \<Rightarrow>
          (case de_exec s d of
             ((h, m, off), s1) \<Rightarrow>
               ref_count
                 (s1\<lparr>parts := (parts s1)(p := \<lparr>data_ref = Resolved h, meta = m, meta_offset = off\<rparr>)\<rparr>)
                 d (- 1)))"

text \<open>\<^verbatim>\<open>__copy__\<close>\<close>

definition copy :: "'v state \<Rightarrow> nat \<Rightarrow> nat \<times> 'v state" where
  "copy s p =
     init s (data_ref (parts s p)) MNone MNone MNone (Some (meta (parts s p)))
       (meta_offset (parts s p))"

text \<open>\<^verbatim>\<open>put\<close>, with the dimensions of the object measured locally.\<close>

definition put :: "'v state \<Rightarrow> 'v \<Rightarrow> nat \<times> 'v state" where
  "put s obj =
     (case wrapper_put s obj of
        (h, s1) \<Rightarrow> init s1 (Resolved h) (MInt (nrows s obj)) (MInt (ncols s obj)) MNone None 0)"

text \<open>The property \<^verbatim>\<open>_data\<close>: drain, then the reference to the block.\<close>

definition data_of :: "'v state \<Rightarrow> nat \<Rightarrow> 'v data_ref \<times> 'v state" where
  "data_of s p = (let s1 = drain_call_queue s p in (data_ref (parts s1 p), s1))"

text \<open>
  \<^verbatim>\<open>ip(materialize)\<close>. The local \<^verbatim>\<open>ip\<close> is bound once, before the drain, and is what
  the method returns.
\<close>

definition ip :: "'v state \<Rightarrow> nat \<Rightarrow> bool \<Rightarrow> (mval \<times> 'v state) option" where
  "ip s p mat = do {
     ip0 \<leftarrow> ip_cache s p;
     let s1 = (if ip0 = MNone then drain_call_queue s p else s);
     (case ip0 of
        MRef k \<Rightarrow>
          if mat then do {
            let v = materialize s1 k;
            s2 \<leftarrow> set_ip_cache s1 p v;
            Some (v, s2)
          } else Some (ip0, s1)
      | _ \<Rightarrow> Some (ip0, s1))
   }"

text \<open>
  \<^verbatim>\<open>length(materialize)\<close> and \<^verbatim>\<open>width(materialize)\<close>. After the drain the cache is
  read again. \<^verbatim>\<open>_get_index_and_columns\<close> is called on \<^verbatim>\<open>self._data_ref\<close>, which the
  drain left resolved.
\<close>

definition length_part :: "'v state \<Rightarrow> nat \<Rightarrow> bool \<Rightarrow> (mval \<times> 'v state) option" where
  "length_part s p mat = do {
     l0 \<leftarrow> length_cache s p;
     (l1, s1) \<leftarrow>
       (if l0 = MNone then do {
          let sd = drain_call_queue s p;
          l' \<leftarrow> length_cache sd p;
          if l' = MNone then
            (case data_ref (parts sd p) of
               Resolved h \<Rightarrow>
                 (case get_index_and_columns sd h of
                    ((l, w), sr) \<Rightarrow> do {
                      sw \<leftarrow> set_width_cache sr p (MRef w);
                      sl \<leftarrow> set_length_cache sw p (MRef l);
                      Some (MRef l, sl)
                    })
             | Deferred d \<Rightarrow> None)
          else Some (l', sd)
        } else Some (l0, s));
     (case l1 of
        MRef k \<Rightarrow>
          if mat then do {
            let v = materialize s1 k;
            s2 \<leftarrow> set_length_cache s1 p v;
            Some (v, s2)
          } else Some (l1, s1)
      | _ \<Rightarrow> Some (l1, s1))
   }"

definition width_part :: "'v state \<Rightarrow> nat \<Rightarrow> bool \<Rightarrow> (mval \<times> 'v state) option" where
  "width_part s p mat = do {
     w0 \<leftarrow> width_cache s p;
     (w1, s1) \<leftarrow>
       (if w0 = MNone then do {
          let sd = drain_call_queue s p;
          w' \<leftarrow> width_cache sd p;
          if w' = MNone then
            (case data_ref (parts sd p) of
               Resolved h \<Rightarrow>
                 (case get_index_and_columns sd h of
                    ((l, w), sr) \<Rightarrow> do {
                      sl \<leftarrow> set_length_cache sr p (MRef l);
                      sw \<leftarrow> set_width_cache sl p (MRef w);
                      Some (MRef w, sw)
                    })
             | Deferred d \<Rightarrow> None)
          else Some (w', sd)
        } else Some (w0, s));
     (case w1 of
        MRef k \<Rightarrow>
          if mat then do {
            let v = materialize s1 k;
            s2 \<leftarrow> set_width_cache s1 p v;
            Some (v, s2)
          } else Some (w1, s1)
      | _ \<Rightarrow> Some (w1, s1))
   }"



subsection \<open>Runs of the partition interface\<close>

text \<open>
  A node is created after its source, so the identities along a chain of sources
  decrease: the chain is acyclic.
\<close>

fun sources_older :: "'v dexec \<Rightarrow> bool" where
  "sources_older (DeferredExecution n (Resolved h) f fa fk nr) = True"
| "sources_older (DeferredExecution n (Deferred d) f fa fk nr) = (de_id d < n \<and> sources_older d)"

text \<open>Draining a list of partitions, one after the other.\<close>

fun drain_all :: "'v state \<Rightarrow> nat list \<Rightarrow> 'v state" where
  "drain_all s [] = s"
| "drain_all s (p # ps) = drain_all (drain_call_queue s p) ps"

text \<open>
  The events in the life of the partitions over one node \<open>d\<close>: a partition is
  constructed with the node as data, a live partition is copied, drained or destroyed.
  The second component lists the live partitions; an event on a partition that is not
  live does nothing.
\<close>

datatype event = Construct | Copy nat | Drain nat | Destroy nat

fun step :: "'v dexec \<Rightarrow> 'v state \<times> nat list \<Rightarrow> event \<Rightarrow> 'v state \<times> nat list" where
  "step d (s, live) Construct =
     (case init s (Deferred d) MNone MNone MNone None 0 of (p, s') \<Rightarrow> (s', p # live))"
| "step d (s, live) (Copy q) =
     (if q \<in> set live then (case copy s q of (p, s') \<Rightarrow> (s', p # live)) else (s, live))"
| "step d (s, live) (Drain q) =
     (if q \<in> set live then (drain_call_queue s q, live) else (s, live))"
| "step d (s, live) (Destroy q) =
     (if q \<in> set live then (del s q, removeAll q live) else (s, live))"

definition run_events :: "'v dexec \<Rightarrow> 'v state \<Rightarrow> event list \<Rightarrow> 'v state \<times> nat list" where
  "run_events d s es = foldl (step d) (s, []) es"

text \<open>The partitions among \<open>live\<close> whose data is still the node with identity \<open>n\<close>.\<close>

definition holds_node :: "'v state \<Rightarrow> nat \<Rightarrow> nat \<Rightarrow> bool" where
  "holds_node s n p = (case data_ref (parts s p) of Deferred d \<Rightarrow> de_id d = n | Resolved h \<Rightarrow> False)"

definition holders :: "'v state \<Rightarrow> nat \<Rightarrow> nat list \<Rightarrow> nat list" where
  "holders s n live = filter (holds_node s n) live"

text \<open>What an event adds to the reference count of the node.\<close>

fun delta :: "'v state \<times> nat list \<Rightarrow> nat \<Rightarrow> event \<Rightarrow> int" where
  "delta (s, live) n Construct = 1"
| "delta (s, live) n (Copy q) = (if q \<in> set live \<and> holds_node s n q then 1 else 0)"
| "delta (s, live) n (Drain q) = (if q \<in> set live \<and> holds_node s n q then - 1 else 0)"
| "delta (s, live) n (Destroy q) = (if q \<in> set live \<and> holds_node s n q then - 1 else 0)"

text \<open>
  A sequence of \<^verbatim>\<open>apply\<close> calls, each on the partition the previous one returned, and
  the value of a partition: \<^verbatim>\<open>materialize\<close> of the property \<^verbatim>\<open>_data\<close>.
\<close>

fun apply_all :: "'v state \<Rightarrow> nat \<Rightarrow> (('v \<Rightarrow> 'v) \<times> bool \<times> bool) list \<Rightarrow> nat \<times> 'v state" where
  "apply_all s p [] = (p, s)"
| "apply_all s p ((f, flat_args, flat_kwargs) # cs) =
     (case apply_func s p f flat_args flat_kwargs of (q, s') \<Rightarrow> apply_all s' q cs)"

definition to_value :: "'v state \<Rightarrow> nat \<Rightarrow> 'v option" where
  "to_value s p =
     (case data_of s p of
        (Resolved h, s') \<Rightarrow> Some (blocks s' h)
      | (Deferred d, s') \<Rightarrow> None)"

definition run_applies :: "'v state \<Rightarrow> 'v \<Rightarrow> (('v \<Rightarrow> 'v) \<times> bool \<times> bool) list \<Rightarrow> 'v option" where
  "run_applies s v cs =
     (case put s v of (p, s1) \<Rightarrow> (case apply_all s1 p cs of (q, s2) \<Rightarrow> to_value s2 q))"

text \<open>The three cached values of a partition.\<close>

definition cached :: "'v state \<Rightarrow> nat \<Rightarrow> mval option \<times> mval option \<times> mval option" where
  "cached s p = (length_cache s p, width_cache s p, ip_cache s p)"

subsection \<open>Invariants\<close>

text \<open>
  A chain none of whose nodes has been submitted, over a block that exists, and the
  value its execution produces.
\<close>

fun pending :: "'v state \<Rightarrow> 'v dexec \<Rightarrow> bool" where
  "pending s (DeferredExecution n (Resolved h) f fa fk nr) =
     (results s n = None \<and> n < next_node s \<and> h < next_block s)"
| "pending s (DeferredExecution n (Deferred d) f fa fk nr) =
     (results s n = None \<and> n < next_node s \<and> de_id d < n \<and> pending s d)"

fun chain_value :: "(nat \<Rightarrow> 'v) \<Rightarrow> 'v dexec \<Rightarrow> 'v" where
  "chain_value bl (DeferredExecution n (Resolved h) f fa fk nr) = f (bl h)"
| "chain_value bl (DeferredExecution n (Deferred d) f fa fk nr) = f (chain_value bl d)"

definition holds_value :: "'v state \<Rightarrow> nat \<Rightarrow> 'v \<Rightarrow> bool" where
  "holds_value s p x =
     (case data_ref (parts s p) of
        Resolved h \<Rightarrow> h < next_block s \<and> blocks s h = x
      | Deferred d \<Rightarrow> pending s d \<and> chain_value (blocks s) d = x)"

text \<open>
  After the node \<open>d\<close> has been submitted with outcome \<open>r\<close>: each partition of \<open>P\<close>
  still holds the node or holds the outcome, and those of \<open>D\<close> hold the outcome.
\<close>

definition settled :: "'v state \<Rightarrow> 'v dexec \<Rightarrow> nat set \<Rightarrow> nat set \<Rightarrow> nat \<times> nat \<times> int \<Rightarrow> bool" where
  "settled s d P D r \<longleftrightarrow>
     results s (de_id d) = Some r \<and>
     (\<forall>p\<in>P. data_ref (parts s p) = Deferred d \<or>
        parts s p = \<lparr>data_ref = Resolved (fst r), meta = fst (snd r), meta_offset = snd (snd r)\<rparr>) \<and>
     (\<forall>p\<in>D. parts s p = \<lparr>data_ref = Resolved (fst r), meta = fst (snd r), meta_offset = snd (snd r)\<rparr>)"

text \<open>
  The invariant of a run of events over the node \<open>d\<close>: the reference count is the
  number of live partitions that still hold the node, and the node has been submitted at
  most once since the run began with \<open>c\<close> submissions.
\<close>

definition balanced :: "'v dexec \<Rightarrow> nat \<Rightarrow> 'v state \<times> nat list \<Rightarrow> bool" where
  "balanced d c cfg \<longleftrightarrow>
     (case cfg of (s, live) \<Rightarrow>
        distinct live \<and> (\<forall>p\<in>set live. p < next_part s) \<and>
        (\<forall>p\<in>set live. data_ref (parts s p) = Deferred d \<or> (\<exists>h. data_ref (parts s p) = Resolved h)) \<and>
        ref_counter s (de_id d) = int (length (holders s (de_id d) live)) \<and>
        count_list (calls s) (ExecNode (de_id d)) \<le> c + 1 \<and>
        (results s (de_id d) = None \<longrightarrow> count_list (calls s) (ExecNode (de_id d)) = c))"

subsection \<open>Example states\<close>

definition state0 :: "int state" where
  "state0 =
     \<lparr>lazy_execution = True, blocks = (\<lambda>_. 0), next_block = 0, scalars = (\<lambda>_. MNone),
      next_scalar = 0, calls = [], nrows = (\<lambda>_. 1), ncols = (\<lambda>_. 1),
      worker_ip = ''10.0.0.1'', compute_sliced_len = (\<lambda>_ _. MNone), iloc = (\<lambda>_ _ v. v),
      ref_counter = (\<lambda>_. 0), results = (\<lambda>_. None), next_node = 0,
      metas = (\<lambda>_. []), next_meta = 0,
      parts = (\<lambda>_. \<lparr>data_ref = Resolved 0, meta = 0, meta_offset = 0\<rparr>), next_part = 0\<rparr>"

text \<open>A partition holding 3, at address 0.\<close>

definition put_state :: "int state" where
  "put_state = snd (put state0 3)"

definition add_one :: "int dexec" where
  "add_one = DeferredExecution 0 (Resolved 0) (\<lambda>x. x + 1) None None 1"

text \<open>Partition 1 is the lazy \<^verbatim>\<open>apply\<close> of add-one to partition 0, partition 2 its copy.\<close>

definition pending_state :: "int state" where
  "pending_state = snd (apply_func put_state 0 (\<lambda>x. x + 1) True True)"

definition shared_state :: "int state" where
  "shared_state = snd (copy pending_state 1)"

text \<open>Two partitions on one metadata list of five slots, at the offsets 0 and 2.\<close>

definition shared_meta_state :: "int state" where
  "shared_meta_state =
     state0
       \<lparr>metas := (\<lambda>_. [MInt 10, MInt 4, MInt 20, MInt 4, MStr ''10.0.0.1'']), next_meta := 1,
        parts := (\<lambda>p. \<lparr>data_ref = Resolved p, meta = 0, meta_offset = (if p = 0 then 0 else 2)\<rparr>),
        next_part := 2\<rparr>"




section \<open>Utilities of the HDK dataframe\<close>

subsection \<open>The lazy categorical proxy\<close>

datatype error = InternalError string

text \<open>
  Modelled from the spec: \<^verbatim>\<open>ErrorMessage.catch_bugs_and_request_email\<close> of
  \<^verbatim>\<open>modin/error_message.py\<close> is missing. A local invariant check fails fast, with a
  diagnostic identifying the offending construct: when the failure condition holds the
  call raises at once, with the text it was given.
\<close>

definition catch_bugs_and_request_email :: "bool \<Rightarrow> string \<Rightarrow> error + unit" where
  "catch_bugs_and_request_email failure_condition extra_log =
     (if failure_condition then Inl (InternalError extra_log) else Inr ())"

record ('t, 'c) lazy_proxy =
  proxy_table :: "'t option"
  proxy_column_name :: string
  proxy_ordered :: bool
  proxy_lazy_categories :: "'c option"

text \<open>\<^verbatim>\<open>LazyProxyCategoricalDtype.__init__\<close>; the table is \<^verbatim>\<open>None\<close> or a table.\<close>

definition LazyProxyCategoricalDtype :: "'t option \<Rightarrow> string \<Rightarrow> error + ('t, 'c) lazy_proxy" where
  "LazyProxyCategoricalDtype table column_name =
     (case catch_bugs_and_request_email (table = None)
             ''attempted to bind 'None' pyarrow table to a lazy category'' of
        Inl e \<Rightarrow> Inl e
      | Inr u \<Rightarrow>
          Inr \<lparr>proxy_table = table, proxy_column_name = column_name, proxy_ordered = False,
               proxy_lazy_categories = None\<rparr>)"

unbundle bit_operations_syntax

subsection \<open>Column names\<close>

text \<open>
  A column name is \<^verbatim>\<open>None\<close>, an int, a float, a \<^verbatim>\<open>Timestamp\<close>, a str or a tuple
  (the type hint \<^verbatim>\<open>_COL_NAME_TYPE\<close>; the int is not a bool). The floats and the
  Timestamps are the values of two types that the model leaves open.

  A Python \<^verbatim>\<open>str\<close> is represented by the list of the bytes of its UTF-8 encoding, and a
  lone surrogate in it by the three bytes that the scheme gives for its code point, which
  are not well-formed UTF-8. The pattern \<^verbatim>\<open>[^a-zA-Z0-9]+\<close> matches every code point
  outside the ASCII letters and digits, and every byte of the encoding of such a code point
  is outside them too, so a maximal run of matching code points is a maximal run of
  matching bytes. The encoded names are ASCII.
\<close>

datatype ('f, 'd) name =
  NNone | NInt int | NFloat 'f | NStamp 'd | NStr string | NTuple "('f, 'd) name list"

datatype py_error =
  ValueError | KeyError | IndexError | AssertionError | TypeError
  | UnicodeEncodeError | UnicodeDecodeError

text \<open>
  The builtins and the methods of \<^verbatim>\<open>Timestamp\<close> that the two functions call are the
  fields of a record: \<^verbatim>\<open>sys.get_int_max_str_digits()\<close>, the limit on the number of
  digits of an int that \<^verbatim>\<open>str\<close> converts (0 for no limit; it cannot be set below
  640), \<^verbatim>\<open>int\<close> on a str, \<^verbatim>\<open>str\<close> and \<^verbatim>\<open>float\<close> on a float and on a str,
  \<^verbatim>\<open>name.timestamp()\<close>, \<^verbatim>\<open>str(name.tz)\<close> and \<^verbatim>\<open>Timestamp.fromtimestamp\<close> with
  its two arguments.
\<close>

record ('f, 'd) library =
  int_max_str_digits :: nat
  int_of_str :: "string \<Rightarrow> py_error + int"
  str_of_float :: "'f \<Rightarrow> string"
  float_of_str :: "string \<Rightarrow> py_error + 'f"
  timestamp :: "'d \<Rightarrow> 'f"
  tz_str :: "'d \<Rightarrow> string"
  fromtimestamp :: "('f, 'd) name \<Rightarrow> ('f, 'd) name \<Rightarrow> py_error + 'd"

definition IDX_COL_NAME :: string where
  "IDX_COL_NAME = ''__index__''"

definition ROWID_COL_NAME :: string where
  "ROWID_COL_NAME = ''__rowid__''"

text \<open>
  \<^verbatim>\<open>MODIN_UNNAMED_SERIES_LABEL\<close> is a constant of \<^verbatim>\<open>modin/utils.py\<close>, which is
  missing: it is the parameter \<open>unnamed\<close> of the functions below.
\<close>

definition RESERVED_NAMES :: "string \<Rightarrow> string list" where
  "RESERVED_NAMES unnamed = [unnamed, ROWID_COL_NAME]"

definition BASE_LIST :: "string list" where
  "BASE_LIST =
     map (\<lambda>c. [c])
       (''ABCDEFGHIJKLMNOPQRSTUVWXYZ'' @ ''abcdefghijklmnopqrstuvwxyz'' @ ''0123456789'')
     @ [''_A'', ''_B'']"

definition BASE_DICT :: "string \<Rightarrow> nat option" where
  "BASE_DICT = map_of (zip BASE_LIST [0..<length BASE_LIST])"

definition TAIL_LEN :: "string \<Rightarrow> nat option" where
  "TAIL_LEN = map_of [(''_0'', 0), (''_1'', 1), (''_2'', 2), (''_3'', 3)]"

definition is_alnum :: "char \<Rightarrow> bool" where
  "is_alnum c =
     (let k = (of_char c :: nat)
      in (65 \<le> k \<and> k \<le> 90) \<or> (97 \<le> k \<and> k \<le> 122) \<or> (48 \<le> k \<and> k \<le> 57))"

definition startswith :: "string \<Rightarrow> string \<Rightarrow> bool" where
  "startswith s p = (take (length p) s = p)"

text \<open>
  The builtin \<^verbatim>\<open>str\<close> on an int: the decimal digits, after a minus sign for a negative
  int; it raises when the digits are more than the limit.
\<close>

definition digit_char :: "nat \<Rightarrow> char" where
  "digit_char d = char_of (48 + d)"

fun str_nat :: "nat \<Rightarrow> string" where
  "str_nat n = (if n < 10 then [digit_char n] else str_nat (n div 10) @ [digit_char (n mod 10)])"

declare str_nat.simps [simp del]

definition str_int :: "int \<Rightarrow> string" where
  "str_int i = (if i < 0 then CHR ''-'' # str_nat (nat (- i)) else str_nat (nat i))"

definition str_of_int :: "('f, 'd) library \<Rightarrow> int \<Rightarrow> py_error + string" where
  "str_of_int lib i =
     (if 0 < int_max_str_digits lib \<and> int_max_str_digits lib < length (str_nat (nat \<bar>i\<bar>))
      then Inl ValueError else Inr (str_int i))"

text \<open>
  \<^verbatim>\<open>bytes.decode("UTF-8")\<close> and \<^verbatim>\<open>str.encode("UTF-8")\<close> raise unless the bytes are
  well-formed UTF-8: a sequence of code points of one to four bytes, with no overlong
  form, no surrogate and nothing above U+10FFFF. \<open>utf8_next\<close> is the text after the
  first code point.
\<close>

definition between :: "nat \<Rightarrow> nat \<Rightarrow> char \<Rightarrow> bool" where
  "between lo hi c \<longleftrightarrow> lo \<le> (of_char c :: nat) \<and> (of_char c :: nat) \<le> hi"

fun utf8_next :: "string \<Rightarrow> string option" where
  "utf8_next [] = None"
| "utf8_next (b # bs) =
     (let k = (of_char b :: nat)
      in if k < 128 then Some bs
         else if 194 \<le> k \<and> k \<le> 223 then
           (case bs of
              c1 # r \<Rightarrow> if between 128 191 c1 then Some r else None
            | _ \<Rightarrow> None)
         else if 224 \<le> k \<and> k \<le> 239 then
           (case bs of
              c1 # c2 # r \<Rightarrow>
                if between (if k = 224 then 160 else 128) (if k = 237 then 159 else 191) c1 \<and>
                   between 128 191 c2
                then Some r else None
            | _ \<Rightarrow> None)
         else if 240 \<le> k \<and> k \<le> 244 then
           (case bs of
              c1 # c2 # c3 # r \<Rightarrow>
                if between (if k = 240 then 144 else 128) (if k = 244 then 143 else 191) c1 \<and>
                   between 128 191 c2 \<and> between 128 191 c3
                then Some r else None
            | _ \<Rightarrow> None)
         else None)"

lemma utf8_next_length: "utf8_next s = Some r \<Longrightarrow> length r < length s"
  by (cases s) (auto simp: Let_def split: if_splits list.splits)

function utf8_valid :: "string \<Rightarrow> bool" where
  "utf8_valid s =
     (if s = [] then True
      else (case utf8_next s of None \<Rightarrow> False | Some r \<Rightarrow> utf8_valid r))"
  by pat_completeness auto
termination
  by (relation "measure length") (auto dest: utf8_next_length)

declare utf8_valid.simps [simp del]
declare utf8_next.simps [simp del]

text \<open>
  The code points of a str, for the subscripts of a str: the number of bytes of a code
  point is given by its first byte.
\<close>

definition char_len :: "char \<Rightarrow> nat" where
  "char_len b =
     (let k = (of_char b :: nat)
      in if k < 192 then 1 else if k < 224 then 2 else if k < 240 then 3 else 4)"

function code_points :: "string \<Rightarrow> string list" where
  "code_points s =
     (if s = [] then []
      else take (char_len (hd s)) s # code_points (drop (char_len (hd s)) s))"
  by pat_completeness auto
termination
  by (relation "measure length") (auto simp: char_len_def Let_def)

declare code_points.simps [simp del]

text \<open>
  \<^verbatim>\<open>_quote\<close>. \<open>chunk_int\<close> puts up to three bytes into a 24-bit integer, \<open>chunk_syms\<close>
  appends the characters of its 6-bit integers; \<open>quote_loop\<close> is the \<^verbatim>\<open>while\<close> loop
  on the bytes from \<^verbatim>\<open>off\<close> on, and carries \<^verbatim>\<open>nbytes\<close>, which is 3 at most, so
  \<^verbatim>\<open>str(nbytes)\<close> is one digit, under every limit.
\<close>

definition chunk_int :: "nat list \<Rightarrow> nat" where
  "chunk_int bs = foldl (\<lambda>n (i, b). n OR push_bit (8 * (2 - i)) b) 0 (zip [0..<length bs] bs)"

definition chunk_syms :: "nat \<Rightarrow> nat \<Rightarrow> string" where
  "chunk_syms n nbytes =
     concat (map (\<lambda>i. BASE_LIST ! (drop_bit (6 * (3 - i)) n AND 63)) [0..<nbytes + 1])"

function quote_loop :: "string \<Rightarrow> nat \<Rightarrow> string" where
  "quote_loop chars nbytes =
     (if chars = [] then ''_'' @ str_int (int nbytes)
      else
        (let nb = min (length chars) 3;
             n = chunk_int (map of_char (take nb chars))
         in chunk_syms n nb @ quote_loop (drop nb chars) nb))"
  by pat_completeness auto
termination
  by (relation "measure (\<lambda>(chars, nbytes). length chars)") auto

declare quote_loop.simps [simp del]

definition quote :: "string \<Rightarrow> py_error + string" where
  "quote src =
     (if \<not> utf8_valid src then Inl UnicodeEncodeError else Inr (''_Q'' @ quote_loop src 0))"

text \<open>
  The \<^verbatim>\<open>while\<close> loop of \<^verbatim>\<open>encode_col_name\<close> on the name from \<^verbatim>\<open>off\<close> on: the
  text before the next match of the pattern, the match quoted, and the rest.
\<close>

function quote_parts :: "string \<Rightarrow> py_error + string" where
  "quote_parts s =
     (let a = takeWhile is_alnum s; r = dropWhile is_alnum s
      in if r = [] then Inr a
         else
           (case quote (takeWhile (\<lambda>c. \<not> is_alnum c) r) of
              Inl e \<Rightarrow> Inl e
            | Inr q \<Rightarrow>
                (case quote_parts (dropWhile (\<lambda>c. \<not> is_alnum c) r) of
                   Inl e \<Rightarrow> Inl e
                 | Inr t \<Rightarrow> Inr (a @ q @ t))))"
  by pat_completeness auto
termination
proof (relation "measure length")
  fix s a r :: string
  assume r: "r = dropWhile is_alnum s" and ne: "r \<noteq> []"
  from ne r have "\<not> is_alnum (hd r)" using hd_dropWhile by metis
  with ne have "length (dropWhile (\<lambda>c. \<not> is_alnum c) r) < length r"
    by (cases r) (simp_all add: le_imp_less_Suc length_dropWhile_le)
  moreover have "length r \<le> length s" by (simp add: r length_dropWhile_le)
  ultimately show "(dropWhile (\<lambda>c. \<not> is_alnum c) r, s) \<in> measure length" by simp
qed simp

declare quote_parts.simps [simp del]

text \<open>The loop that joins the encoded items of a tuple with the separator.\<close>

fun join_S :: "string list \<Rightarrow> string" where
  "join_S [] = []"
| "join_S [x] = x"
| "join_S (x # xs) = x @ ''_S'' @ join_S xs"

text \<open>A loop or a comprehension over results: the first error is raised.\<close>

fun collect :: "(py_error + 'a) list \<Rightarrow> py_error + 'a list" where
  "collect [] = Inr []"
| "collect (x # xs) =
     (case x of
        Inl e \<Rightarrow> Inl e
      | Inr v \<Rightarrow> (case collect xs of Inl e \<Rightarrow> Inl e | Inr vs \<Rightarrow> Inr (v # vs)))"

text \<open>
  \<^verbatim>\<open>encode_col_name\<close>. A \<^verbatim>\<open>Timestamp\<close> is encoded as the tuple of its
  \<^verbatim>\<open>timestamp()\<close> and of the str of its time zone; \<open>weight\<close> orders the calls.
\<close>

fun weight :: "('f, 'd) name \<Rightarrow> nat" where
  "weight (NTuple ns) = Suc (sum_list (map weight ns))"
| "weight (NStamp d) = 4"
| "weight n = 1"

function encode_col_name ::
  "('f, 'd) library \<Rightarrow> string \<Rightarrow> ('f, 'd) name \<Rightarrow> bool \<Rightarrow> py_error + string" where
  "encode_col_name lib unnamed NNone ignore_reserved = Inr ''_N''"
| "encode_col_name lib unnamed (NInt i) ignore_reserved =
     (case str_of_int lib i of Inl e \<Rightarrow> Inl e | Inr s \<Rightarrow> Inr (''_I'' @ s))"
| "encode_col_name lib unnamed (NFloat x) ignore_reserved = Inr (''_F'' @ str_of_float lib x)"
| "encode_col_name lib unnamed (NStamp d) ignore_reserved =
     (case encode_col_name lib unnamed
             (NTuple [NFloat (timestamp lib d), NStr (tz_str lib d)]) True of
        Inl e \<Rightarrow> Inl e
      | Inr s \<Rightarrow> Inr (''_D'' @ s))"
| "encode_col_name lib unnamed (NTuple ns) ignore_reserved =
     (case collect (map (\<lambda>n. encode_col_name lib unnamed n True) ns) of
        Inl e \<Rightarrow> Inl e
      | Inr dst \<Rightarrow> Inr (''_T'' @ join_S dst))"
| "encode_col_name lib unnamed (NStr s) ignore_reserved =
     (if length s = 0 then Inr ''_E''
      else if ignore_reserved \<and> (startswith s IDX_COL_NAME \<or> s \<in> set (RESERVED_NAMES unnamed))
      then Inr s
      else if dropWhile is_alnum s = [] then Inr s
      else quote_parts s)"
  by pat_completeness auto
termination
proof (relation "measure (\<lambda>(lib, unnamed, n, ignore_reserved). weight n)")
  fix ns :: "('f, 'd) name list" and n
  assume "n \<in> set ns"
  then have "weight n \<le> sum_list (map weight ns)"
    by (induction ns) auto
  then show "((lib, unnamed, n, True), (lib, unnamed, NTuple ns, ignore_reserved))
      \<in> measure (\<lambda>(lib, unnamed, n, ignore_reserved). weight n)"
    for lib :: "('f, 'd) library" and unnamed ignore_reserved
    by simp
qed simp_all

text \<open>
  \<^verbatim>\<open>_unquote\<close>, on the source from \<^verbatim>\<open>off\<close> on. \<open>seen\<close> is the source up to
  \<^verbatim>\<open>off\<close>, of which the last two characters are \<^verbatim>\<open>src[off - 2 : off]\<close>. \<open>read_chunk\<close>
  is the \<^verbatim>\<open>for\<close> loop with \<open>k\<close> rounds to go: it returns the integer, the number of
  bytes of the tail when it left by \<^verbatim>\<open>break\<close>, and the source read and unread.
\<close>

fun read_chunk ::
  "nat \<Rightarrow> nat \<Rightarrow> string \<Rightarrow> string \<Rightarrow> nat \<Rightarrow> py_error + (nat \<times> nat option \<times> string \<times> string)" where
  "read_chunk 0 i seen rest n = Inr (n, None, seen, rest)"
| "read_chunk (Suc k) i seen rest n =
     (case rest of
        [] \<Rightarrow> Inl IndexError
      | c # rest1 \<Rightarrow>
          if c = CHR ''_'' then
            (let char = c # take 1 rest1; seen2 = seen @ char; rest2 = drop 1 rest1
             in case TAIL_LEN char of
                  Some tail \<Rightarrow> Inr (n, Some (if tail = 3 then 0 else tail), seen2, rest2)
                | None \<Rightarrow>
                    (case BASE_DICT char of
                       None \<Rightarrow> Inl KeyError
                     | Some b \<Rightarrow> read_chunk k (Suc i) seen2 rest2 (n OR push_bit (6 * (3 - i)) b)))
          else
            (case BASE_DICT [c] of
               None \<Rightarrow> Inl KeyError
             | Some b \<Rightarrow> read_chunk k (Suc i) (seen @ [c]) rest1 (n OR push_bit (6 * (3 - i)) b)))"

definition chunk_bytes :: "nat \<Rightarrow> nat \<Rightarrow> string" where
  "chunk_bytes n nbytes = map (\<lambda>i. char_of (drop_bit (8 * (2 - i)) n AND 255)) [0..<nbytes]"

lemma read_chunk_length:
  "read_chunk k i seen rest n = Inr (n', tai, seen', rest') \<Longrightarrow>
     length rest' \<le> length rest \<and> (0 < k \<longrightarrow> length rest' < length rest)"
proof (induction k i seen rest n rule: read_chunk.induct)
  case (1 i seen rest n)
  then show ?case by simp
next
  case (2 k i seen rest n)
  show ?case
  proof (cases rest)
    case Nil
    with "2.prems" show ?thesis by simp
  next
    case (Cons c rest1)
    show ?thesis
    proof (cases "c = CHR ''_''")
      case True
      show ?thesis
      proof (cases "TAIL_LEN (c # take 1 rest1)")
        case None
        show ?thesis
        proof (cases "BASE_DICT (c # take 1 rest1)")
          case bn: None
          with "2.prems" Cons True None show ?thesis by (simp add: Let_def)
        next
          case (Some b)
          from "2.prems" Cons True None Some
          have "read_chunk k (Suc i) (seen @ c # take 1 rest1) (drop 1 rest1)
              (n OR push_bit (6 * (3 - i)) b) = Inr (n', tai, seen', rest')"
            by (simp add: Let_def)
          from "2.IH"(1) [OF Cons True refl refl refl None Some this] Cons
          show ?thesis by auto
        qed
      next
        case (Some tail)
        with "2.prems" Cons True show ?thesis by (auto simp: Let_def)
      qed
    next
      case False
      show ?thesis
      proof (cases "BASE_DICT [c]")
        case None
        with "2.prems" Cons False show ?thesis by simp
      next
        case (Some b)
        from "2.prems" Cons False Some
        have "read_chunk k (Suc i) (seen @ [c]) rest1 (n OR push_bit (6 * (3 - i)) b)
            = Inr (n', tai, seen', rest')"
          by simp
        from "2.IH"(2) [OF Cons False Some this] Cons show ?thesis by auto
      qed
    qed
  qed
qed

text \<open>
  The \<^verbatim>\<open>while\<close> loop of \<^verbatim>\<open>_unquote\<close>: \<^verbatim>\<open>end\<close> is the length of the source until
  a tail sets it to \<^verbatim>\<open>off\<close>, which ends the loop.
\<close>

function unquote_loop :: "string \<Rightarrow> string \<Rightarrow> string \<Rightarrow> py_error + (string \<times> string \<times> string)" where
  "unquote_loop seen rest raw =
     (if rest = [] then Inr (raw, seen, rest)
      else
        (case read_chunk (min (length rest) 4) 0 seen rest 0 of
           Inl e \<Rightarrow> Inl e
         | Inr (n, tai, seen', rest') \<Rightarrow>
             (case tai of
                Some nbytes \<Rightarrow> Inr (raw @ chunk_bytes n nbytes, seen', rest')
              | None \<Rightarrow> unquote_loop seen' rest' (raw @ chunk_bytes n 3))))"
  by pat_completeness auto
termination
proof (relation "measure (\<lambda>(seen, rest, raw). length rest)")
  fix seen rest raw :: string and x2 n tai seen' rest' y and x2a :: "nat option \<times> string \<times> string"
    and x2b :: "string \<times> string"
  assume "rest \<noteq> []"
    and "read_chunk (min (length rest) 4) 0 seen rest 0 = Inr x2"
    and "(n, x2a) = x2" and "(tai, x2b) = x2a" and "(seen', rest') = x2b" and "tai = None"
  then have "read_chunk (min (length rest) 4) 0 seen rest 0 = Inr (n, tai, seen', rest')"
    by simp
  from read_chunk_length [OF this] \<open>rest \<noteq> []\<close>
  show "((seen', rest', raw @ chunk_bytes n 3), (seen, rest, raw))
      \<in> measure (\<lambda>(seen, rest, raw). length rest)"
    by simp
qed simp

declare unquote_loop.simps [simp del]

definition unquote :: "string \<Rightarrow> py_error + (string \<times> string)" where
  "unquote src =
     (if take 2 src \<noteq> ''_Q'' then Inl AssertionError
      else
        (case unquote_loop (take 2 src) (drop 2 src) [] of
           Inl e \<Rightarrow> Inl e
         | Inr (raw, seen, rest) \<Rightarrow>
             if TAIL_LEN (drop (length seen - 2) seen) = None then Inl AssertionError
             else if \<not> utf8_valid raw then Inl UnicodeDecodeError
             else Inr (raw, rest)))"

lemma unquote_loop_length:
  "unquote_loop seen rest raw = Inr (raw', seen', rest') \<Longrightarrow> length rest' \<le> length rest"
proof (induction seen rest raw rule: unquote_loop.induct)
  case (1 seen rest raw)
  show ?case
  proof (cases "rest = []")
    case True
    with "1.prems" show ?thesis by (simp add: unquote_loop.simps)
  next
    case False
    from "1.prems" False obtain n tai b1 r1 where
      rc: "read_chunk (min (length rest) 4) 0 seen rest 0 = Inr (n, tai, b1, r1)"
      by (subst (asm) unquote_loop.simps) (auto split: sum.splits)
    note le = read_chunk_length [OF rc]
    show ?thesis
    proof (cases tai)
      case None
      from "1.prems" False rc None have "unquote_loop b1 r1 (raw @ chunk_bytes n 3) = Inr (raw', seen', rest')"
        by (subst (asm) unquote_loop.simps) simp
      from "1.IH" [OF False rc refl refl refl None this] le show ?thesis by simp
    next
      case (Some nb)
      with "1.prems" False rc le show ?thesis
        by (subst (asm) unquote_loop.simps) auto
    qed
  qed
qed

lemma unquote_length:
  "unquote src = Inr (raw, rest) \<Longrightarrow> length rest < length src"
proof -
  assume a: "unquote src = Inr (raw, rest)"
  then have t: "take 2 src = ''_Q''" by (auto simp: unquote_def split: if_splits)
  then have l: "2 \<le> length src" by (metis length_take min.cobounded1 length_Cons list.size(3) One_nat_def Suc_1 min_def not_less_eq_eq)
  from a t obtain seen where "unquote_loop (take 2 src) (drop 2 src) [] = Inr (raw, seen, rest)"
    by (auto simp: unquote_def split: if_splits sum.splits)
  from unquote_loop_length [OF this] l show ?thesis by simp
qed

text \<open>
  \<^verbatim>\<open>name.find("_Q", off)\<close> on the name from \<^verbatim>\<open>off\<close> on: the text before the match and
  the name from the match on.
\<close>

fun find_Q :: "string \<Rightarrow> (string \<times> string) option" where
  "find_Q [] = None"
| "find_Q (c # cs) =
     (if c = CHR ''_'' \<and> take 1 cs = ''Q'' then Some ([], c # cs)
      else map_option (\<lambda>(p, q). (c # p, q)) (find_Q cs))"

lemma find_Q_length: "find_Q s = Some (p, q) \<Longrightarrow> length q \<le> length s"
  by (induction s arbitrary: p q) (auto split: if_splits)

text \<open>The loop of \<^verbatim>\<open>decode_col_name\<close> over the quoted parts of a name.\<close>

function unquote_all :: "string \<Rightarrow> py_error + string" where
  "unquote_all rest =
     (case find_Q rest of
        None \<Rightarrow> Inr rest
      | Some (pre, q) \<Rightarrow>
          (case unquote q of
             Inl e \<Rightarrow> Inl e
           | Inr (raw, rest') \<Rightarrow>
               (case unquote_all rest' of
                  Inl e \<Rightarrow> Inl e
                | Inr t \<Rightarrow> Inr (pre @ raw @ t))))"
  by pat_completeness auto
termination
proof (relation "measure length")
  fix rest x2 pre q x2a raw rest'
  assume "find_Q rest = Some x2" and "(pre, q) = x2" and "unquote q = Inr x2a" and "(raw, rest') = x2a"
  then have f: "find_Q rest = Some (pre, q)" and u: "unquote q = Inr (raw, rest')" by simp_all
  from find_Q_length [OF f] unquote_length [OF u]
  show "(rest', rest) \<in> measure length" by simp
qed simp

declare unquote_all.simps [simp del]

text \<open>\<^verbatim>\<open>str.split("_S")\<close>\<close>

fun split_S :: "string \<Rightarrow> string list" where
  "split_S [] = [[]]"
| "split_S [c] = [[c]]"
| "split_S (c # d # cs) =
     (if c = CHR ''_'' \<and> d = CHR ''S'' then [] # split_S cs
      else (case split_S (d # cs) of p # ps \<Rightarrow> (c # p) # ps | [] \<Rightarrow> [[c]]))"

lemma split_S_length: "p \<in> set (split_S s) \<Longrightarrow> length p \<le> length s"
proof (induction s arbitrary: p rule: split_S.induct)
  case 1
  then show ?case by simp
next
  case (2 c)
  then show ?case by simp
next
  case (3 c d cs)
  show ?case
  proof (cases "c = CHR ''_'' \<and> d = CHR ''S''")
    case True
    with "3.prems" "3.IH"(1) show ?thesis by fastforce
  next
    case False
    with "3.prems" "3.IH"(2) show ?thesis
      by (cases "split_S (d # cs)") (auto simp: le_SucI)
  qed
qed

text \<open>The subscript of a name, \<^verbatim>\<open>stamp[i]\<close>, for an index from 0 on.\<close>

fun getitem :: "('f, 'd) name \<Rightarrow> nat \<Rightarrow> py_error + ('f, 'd) name" where
  "getitem (NStr s) i =
     (if i < length (code_points s) then Inr (NStr (code_points s ! i)) else Inl IndexError)"
| "getitem (NTuple ns) i = (if i < length ns then Inr (ns ! i) else Inl IndexError)"
| "getitem n i = Inl TypeError"

function decode_col_name ::
  "('f, 'd) library \<Rightarrow> string \<Rightarrow> string \<Rightarrow> py_error + ('f, 'd) name" where
  "decode_col_name lib unnamed name =
     (if startswith name ''_'' then
        (if startswith name IDX_COL_NAME \<or> name \<in> set (RESERVED_NAMES unnamed) then Inr (NStr name)
         else
           (case drop 1 name of
              [] \<Rightarrow> Inl IndexError
            | char # cs \<Rightarrow>
                if char = CHR ''N'' then Inr NNone
                else if char = CHR ''I'' then map_sum id NInt (int_of_str lib (drop 2 name))
                else if char = CHR ''F'' then map_sum id NFloat (float_of_str lib (drop 2 name))
                else if char = CHR ''D'' then
                  (case decode_col_name lib unnamed (drop 2 name) of
                     Inl e \<Rightarrow> Inl e
                   | Inr stamp \<Rightarrow>
                       (case getitem stamp 0 of
                          Inl e \<Rightarrow> Inl e
                        | Inr a \<Rightarrow>
                            (case getitem stamp 1 of
                               Inl e \<Rightarrow> Inl e
                             | Inr b \<Rightarrow> map_sum id NStamp (fromtimestamp lib a b))))
                else if char = CHR ''T'' then
                  (case collect (map (decode_col_name lib unnamed) (split_S (drop 2 name))) of
                     Inl e \<Rightarrow> Inl e
                   | Inr ns \<Rightarrow> Inr (NTuple ns))
                else if char = CHR ''E'' then Inr (NStr [])
                else map_sum id NStr (unquote_all name)))
      else map_sum id NStr (unquote_all name))"
  by pat_completeness auto
termination
proof (relation "measure (\<lambda>(lib, unnamed, name). length name)")
  fix unnamed name :: string and char cs x and lib :: "('f, 'd) library"
  assume "drop 1 name = char # cs" and "x \<in> set (split_S (drop 2 name))"
  then have "name \<noteq> []" and "length x \<le> length name - 2"
    using split_S_length [of x "drop 2 name"] by auto
  then show "((lib, unnamed, x), (lib, unnamed, name)) \<in> measure (\<lambda>(lib, unnamed, name). length name)"
    by (cases name) auto
next
  fix unnamed name :: string and char cs and lib :: "('f, 'd) library"
  assume "drop 1 name = char # cs"
  then show "((lib, unnamed, drop 2 name), (lib, unnamed, name)) \<in> measure (\<lambda>(lib, unnamed, name). length name)"
    by (cases name) auto
qed simp

declare decode_col_name.simps [simp del]

subsection \<open>Predicates on column names\<close>

text \<open>
  A string is reserved when \<^verbatim>\<open>encode_col_name\<close> returns it as it is: it starts with
  \<^verbatim>\<open>IDX_COL_NAME\<close> or is one of \<^verbatim>\<open>_RESERVED_NAMES\<close>.
\<close>

definition reserved :: "string \<Rightarrow> string \<Rightarrow> bool" where
  "reserved unnamed s \<longleftrightarrow> startswith s IDX_COL_NAME \<or> s \<in> set (RESERVED_NAMES unnamed)"

text \<open>\<open>has_S\<close>: the separator of the items of a tuple, \<^verbatim>\<open>_S\<close>, occurs in the string.\<close>

fun has_S :: "string \<Rightarrow> bool" where
  "has_S (c # d # cs) = (c = CHR ''_'' \<and> d = CHR ''S'' \<or> has_S (d # cs))"
| "has_S [c] = False"
| "has_S [] = False"

text \<open>The characters of an encoded name: the ASCII letters and digits, and the underscore.\<close>

definition name_char :: "char \<Rightarrow> bool" where
  "name_char c \<longleftrightarrow> is_alnum c \<or> c = CHR ''_''"

text \<open>
  An int that the library reads back: its digits are within the limit, and \<^verbatim>\<open>int\<close>
  of its \<^verbatim>\<open>str\<close> is the int. A float that the library reads back: \<^verbatim>\<open>float\<close> of its
  \<^verbatim>\<open>str\<close> is the float.
\<close>

definition int_readable :: "('f, 'd) library \<Rightarrow> int \<Rightarrow> bool" where
  "int_readable lib i \<longleftrightarrow>
     (int_max_str_digits lib = 0 \<or> length (str_nat (nat \<bar>i\<bar>)) \<le> int_max_str_digits lib) \<and>
     int_of_str lib (str_int i) = Inr i"

definition float_readable :: "('f, 'd) library \<Rightarrow> 'f \<Rightarrow> bool" where
  "float_readable lib x \<longleftrightarrow> float_of_str lib (str_of_float lib x) = Inr x"

text \<open>
  An item of a tuple that the decoder finds again: \<^verbatim>\<open>None\<close>, an int or a float that
  the library reads back, the float with no separator in its \<^verbatim>\<open>str\<close>, or a str with a
  UTF-8 encoding that is not a reserved string with the separator in it. A name that the
  decoder restores is \<^verbatim>\<open>None\<close>, such an int or float, a str with a UTF-8 encoding, a
  tuple, not empty, of such items, or a \<^verbatim>\<open>Timestamp\<close> of which the timestamp and the
  time zone are such items and which \<^verbatim>\<open>Timestamp.fromtimestamp\<close> returns for them.
\<close>

fun atom :: "('f, 'd) library \<Rightarrow> string \<Rightarrow> ('f, 'd) name \<Rightarrow> bool" where
  "atom lib unnamed NNone = True"
| "atom lib unnamed (NInt i) = int_readable lib i"
| "atom lib unnamed (NFloat x) = (float_readable lib x \<and> \<not> has_S (str_of_float lib x))"
| "atom lib unnamed (NStr s) = (utf8_valid s \<and> (reserved unnamed s \<longrightarrow> \<not> has_S s))"
| "atom lib unnamed (NStamp d) = False"
| "atom lib unnamed (NTuple ns) = False"

fun supported :: "('f, 'd) library \<Rightarrow> string \<Rightarrow> ('f, 'd) name \<Rightarrow> bool" where
  "supported lib unnamed NNone = True"
| "supported lib unnamed (NInt i) = int_readable lib i"
| "supported lib unnamed (NFloat x) = float_readable lib x"
| "supported lib unnamed (NStr s) = utf8_valid s"
| "supported lib unnamed (NStamp d) =
     (atom lib unnamed (NFloat (timestamp lib d)) \<and> atom lib unnamed (NStr (tz_str lib d)) \<and>
      fromtimestamp lib (NFloat (timestamp lib d)) (NStr (tz_str lib d)) = Inr d)"
| "supported lib unnamed (NTuple ns) = (ns \<noteq> [] \<and> list_all (atom lib unnamed) ns)"

text \<open>
  The names with no character in their encoded form but letters, digits and underscores:
  \<^verbatim>\<open>None\<close>, an int from 0 on, a float and a reserved string with no other character
  in their \<^verbatim>\<open>str\<close>, every other string, a \<^verbatim>\<open>Timestamp\<close> with such a timestamp and
  time zone, and a tuple of such names.
\<close>

fun plain :: "('f, 'd) library \<Rightarrow> string \<Rightarrow> ('f, 'd) name \<Rightarrow> bool" where
  "plain lib unnamed NNone = True"
| "plain lib unnamed (NInt i) = (0 \<le> i)"
| "plain lib unnamed (NFloat x) = list_all name_char (str_of_float lib x)"
| "plain lib unnamed (NStr s) = (reserved unnamed s \<longrightarrow> list_all name_char s)"
| "plain lib unnamed (NStamp d) =
     (list_all name_char (str_of_float lib (timestamp lib d)) \<and>
      (reserved unnamed (tz_str lib d) \<longrightarrow> list_all name_char (tz_str lib d)))"
| "plain lib unnamed (NTuple ns) = list_all (plain lib unnamed) ns"

subsection \<open>Bit fields and quoted text\<close>

text \<open>
  The 6-bit field and the byte of an integer at a bit position, and a byte put at a
  position; the symbol \<^verbatim>\<open>(n >> (6 * (3 - j))) & 0x3F\<close> of a chunk, and the integer that
  the decoder has built from the first \<open>m\<close> symbols of a chunk.
\<close>

definition field6 :: "nat \<Rightarrow> nat \<Rightarrow> nat" where
  "field6 s n = push_bit s (take_bit 6 (drop_bit s n))"

definition byte_at :: "nat \<Rightarrow> nat \<Rightarrow> nat" where
  "byte_at s n = take_bit 8 (drop_bit s n)"

definition put_byte :: "nat \<Rightarrow> char \<Rightarrow> nat" where
  "put_byte s c = push_bit s (of_char c)"

definition sym_at :: "nat \<Rightarrow> nat \<Rightarrow> nat" where
  "sym_at n j = drop_bit (6 * (3 - j)) n AND 63"

definition dec_int :: "nat \<Rightarrow> nat \<Rightarrow> nat" where
  "dec_int n m = foldl (\<lambda>a j. a OR field6 (6 * (3 - j)) n) 0 [0..<m]"

text \<open>
  A symbol of \<^verbatim>\<open>_BASE_LIST\<close> is a letter or a digit, or \<^verbatim>\<open>_A\<close> or \<^verbatim>\<open>_B\<close>;
  \<^verbatim>\<open>_BASE_DICT\<close> maps it to its index, and no symbol is a key of \<^verbatim>\<open>_TAIL_LEN\<close>.
\<close>

definition sym_ok :: "nat \<Rightarrow> bool" where
  "sym_ok s =
     (case BASE_LIST ! s of
        [c] \<Rightarrow> is_alnum c \<and> BASE_DICT [c] = Some s
      | [c, d] \<Rightarrow> c = CHR ''_'' \<and> (d = CHR ''A'' \<or> d = CHR ''B'') \<and>
          BASE_DICT [c, d] = Some s \<and> TAIL_LEN [c, d] = None
      | _ \<Rightarrow> False)"

text \<open>
  The text that \<^verbatim>\<open>_quote\<close> and the loop of \<^verbatim>\<open>encode_col_name\<close> append when no
  error is raised.
\<close>

definition quoted :: "string \<Rightarrow> string" where
  "quoted src = ''_Q'' @ quote_loop src 0"

function quoted_parts :: "string \<Rightarrow> string" where
  "quoted_parts s =
     (let a = takeWhile is_alnum s; r = dropWhile is_alnum s
      in if r = [] then a
         else a @ quoted (takeWhile (\<lambda>c. \<not> is_alnum c) r)
                @ quoted_parts (dropWhile (\<lambda>c. \<not> is_alnum c) r))"
  by pat_completeness auto
termination
proof (relation "measure length")
  fix s a r :: string
  assume r: "r = dropWhile is_alnum s" and ne: "r \<noteq> []"
  from ne r have "\<not> is_alnum (hd r)" using hd_dropWhile by metis
  with ne have "length (dropWhile (\<lambda>c. \<not> is_alnum c) r) < length r"
    by (cases r) (simp_all add: le_imp_less_Suc length_dropWhile_le)
  moreover have "length r \<le> length s" by (simp add: r length_dropWhile_le)
  ultimately show "(dropWhile (\<lambda>c. \<not> is_alnum c) r, s) \<in> measure length" by simp
qed simp

declare quoted_parts.simps [simp del]

text \<open>A string with no separator in it that does not end with an underscore.\<close>

definition tame :: "string \<Rightarrow> bool" where
  "tame x \<longleftrightarrow> \<not> has_S x \<and> (x = [] \<or> last x \<noteq> CHR ''_'')"

subsection \<open>A library for the examples\<close>

text \<open>A reader of decimal literals, with an optional minus sign.\<close>

definition digit_val :: "char \<Rightarrow> nat option" where
  "digit_val c =
     (let k = (of_char c :: nat) in if 48 \<le> k \<and> k \<le> 57 then Some (k - 48) else None)"

fun nat_of_digits :: "nat \<Rightarrow> string \<Rightarrow> nat option" where
  "nat_of_digits acc [] = Some acc"
| "nat_of_digits acc (c # cs) =
     (case digit_val c of None \<Rightarrow> None | Some d \<Rightarrow> nat_of_digits (10 * acc + d) cs)"

definition decimal_int :: "string \<Rightarrow> int option" where
  "decimal_int s =
     (case s of
        [] \<Rightarrow> None
      | c # cs \<Rightarrow>
          if c = CHR ''-'' then
            (if cs = [] then None else map_option (\<lambda>n. - int n) (nat_of_digits 0 cs))
          else map_option int (nat_of_digits 0 s))"

text \<open>
  The limit is 4300 digits and \<^verbatim>\<open>int\<close> reads decimal literals; a float is a pair of
  naturals, written with a point between them, and a \<^verbatim>\<open>Timestamp\<close> is such a float
  and the name of a time zone.
\<close>

definition example_float_of_str :: "string \<Rightarrow> py_error + (nat \<times> nat)" where
  "example_float_of_str s =
     (case (nat_of_digits 0 (takeWhile (\<lambda>c. c \<noteq> CHR ''.'') s),
            nat_of_digits 0 (drop 1 (dropWhile (\<lambda>c. c \<noteq> CHR ''.'') s))) of
        (Some a, Some b) \<Rightarrow> if CHR ''.'' \<in> set s then Inr (a, b) else Inl ValueError
      | _ \<Rightarrow> Inl ValueError)"

definition example_fromtimestamp ::
  "(nat \<times> nat, (nat \<times> nat) \<times> string) name \<Rightarrow> (nat \<times> nat, (nat \<times> nat) \<times> string) name \<Rightarrow>
   py_error + ((nat \<times> nat) \<times> string)" where
  "example_fromtimestamp a b =
     (case (a, b) of (NFloat x, NStr z) \<Rightarrow> Inr (x, z) | _ \<Rightarrow> Inl TypeError)"

definition example_library :: "(nat \<times> nat, (nat \<times> nat) \<times> string) library" where
  "example_library =
     \<lparr>int_max_str_digits = 4300,
      int_of_str = (\<lambda>s. case decimal_int s of None \<Rightarrow> Inl ValueError | Some i \<Rightarrow> Inr i),
      str_of_float = (\<lambda>(a, b). str_nat a @ ''.'' @ str_nat b),
      float_of_str = example_float_of_str,
      timestamp = fst,
      tz_str = snd,
      fromtimestamp = example_fromtimestamp\<rparr>"


section \<open>Properties of the partition\<close>

subsection \<open>Frames of the operations\<close>

lemmas cache_defs = length_cache_def width_cache_def ip_cache_def set_length_cache_def
  set_width_cache_def set_ip_cache_def meta_getitem_def meta_setitem_def py_index_def

lemma ref_count_frame [simp]:
  "results (ref_count s d k) = results s" "next_node (ref_count s d k) = next_node s"
  "blocks (ref_count s d k) = blocks s" "next_block (ref_count s d k) = next_block s"
  "parts (ref_count s d k) = parts s" "calls (ref_count s d k) = calls s"
  "metas (ref_count s d k) = metas s"
  by (simp_all add: ref_count_def)

lemma submit_eq:
  "submit s n f h =
     ((next_block s, next_meta s, 0),
      s\<lparr>calls := calls s @ [ExecNode n],
        blocks := (blocks s)(next_block s := f (blocks s h)),
        next_block := Suc (next_block s),
        metas := (metas s)(next_meta s :=
          [MInt (nrows s (f (blocks s h))), MInt (ncols s (f (blocks s h))), MStr (worker_ip s)]),
        next_meta := Suc (next_meta s),
        results := (results s)(n := Some (next_block s, next_meta s, 0))\<rparr>)"
  by (simp add: submit_def wrapper_put_def MetaList_def Let_def)

lemma init_eq:
  "init s data len wid ipa meta_arg meta_off =
     (next_part s,
      (case meta_arg of
         None \<Rightarrow> (case data of Deferred d \<Rightarrow> ref_count s d 1 | Resolved h \<Rightarrow> s)
           \<lparr>metas := (metas s)(next_meta s := [len, wid, ipa]), next_meta := Suc (next_meta s),
            parts := (parts s)(next_part s := \<lparr>data_ref = data, meta = next_meta s, meta_offset = 0\<rparr>),
            next_part := Suc (next_part s)\<rparr>
       | Some m \<Rightarrow> (case data of Deferred d \<Rightarrow> ref_count s d 1 | Resolved h \<Rightarrow> s)
           \<lparr>parts := (parts s)(next_part s := \<lparr>data_ref = data, meta = m, meta_offset = meta_off\<rparr>),
            next_part := Suc (next_part s)\<rparr>))"
  by (simp add: init_def MetaList_def ref_count_def Let_def split: data_ref.splits option.splits)

lemma init_frame:
  assumes "init s data len wid ipa meta_arg off = (q, s')"
  shows "q = next_part s" "data_ref (parts s' q) = data" "blocks s' = blocks s"
    "next_block s' = next_block s" "results s' = results s" "next_node s' = next_node s"
  using assms by (auto simp: init_eq ref_count_def split: option.splits data_ref.splits)

lemma new_de_frame:
  assumes "new_de s data f fa fk nr = (de, s')"
  shows "de = DeferredExecution (next_node s) data f fa fk nr"
    "results s' = (results s)(next_node s := None)" "next_node s' = Suc (next_node s)"
    "blocks s' = blocks s" "next_block s' = next_block s" "parts s' = parts s"
  using assms by (auto simp: new_de_def ref_count_def Let_def split: data_ref.splits)


subsection \<open>Execution of a node\<close>

lemma de_exec_memo: "results s (de_id d) = Some r \<Longrightarrow> de_exec s d = (r, s)"
  by (cases "(s, d)" rule: de_exec.cases) simp_all

lemma de_exec_result: "de_exec s d = (r, s') \<Longrightarrow> results s' (de_id d) = Some r"
  by (cases "(s, d)" rule: de_exec.cases)
    (auto simp: submit_eq split: option.splits prod.splits)

lemma de_exec_frame:
  "de_exec s d = (r, s') \<Longrightarrow>
     parts s' = parts s \<and> next_part s' = next_part s \<and> lazy_execution s' = lazy_execution s \<and>
     scalars s' = scalars s \<and> next_scalar s' = next_scalar s \<and> next_node s' = next_node s \<and>
     nrows s' = nrows s \<and> ncols s' = ncols s \<and> worker_ip s' = worker_ip s"
proof (induction s d arbitrary: r s' rule: de_exec.induct)
  case (1 s n h f fa fk nr)
  then show ?case by (auto simp: submit_eq split: option.splits)
next
  case (2 s n d f fa fk nr)
  show ?case
  proof (cases "results s n")
    case None
    obtain r1 s1 where e: "de_exec s d = (r1, s1)" by fastforce
    from "2.IH" [OF None e] "2.prems" None e show ?thesis
      by (auto simp: submit_eq ref_count_def split: prod.splits)
  next
    case (Some a)
    with "2.prems" show ?thesis by simp
  qed
qed

lemma de_exec_above:
  "sources_older d \<Longrightarrow> de_exec s d = (r, s') \<Longrightarrow>
     (\<forall>k\<ge>de_id d. ref_counter s' k = ref_counter s k) \<and>
     (\<forall>k>de_id d. results s' k = results s k \<and>
        count_list (calls s') (ExecNode k) = count_list (calls s) (ExecNode k)) \<and>
     count_list (calls s') (ExecNode (de_id d)) =
       count_list (calls s) (ExecNode (de_id d)) + (if results s (de_id d) = None then 1 else 0)"
proof (induction s d arbitrary: r s' rule: de_exec.induct)
  case (1 s n h f fa fk nr)
  then show ?case by (auto simp: submit_eq split: option.splits)
next
  case (2 s n d f fa fk nr)
  show ?case
  proof (cases "results s n")
    case None
    obtain r1 s1 where e: "de_exec s d = (r1, s1)" by fastforce
    from "2.prems" have lt: "de_id d < n" and so: "sources_older d" by simp_all
    from "2.IH" [OF None so e] "2.prems" None e lt show ?thesis
      by (auto simp: submit_eq ref_count_def split: prod.splits)
  next
    case (Some a)
    with "2.prems" show ?thesis by simp
  qed
qed

lemma pending_id: "pending s d \<Longrightarrow> de_id d < next_node s \<and> results s (de_id d) = None"
  by (cases "(s, d)" rule: pending.cases) simp_all

lemma pending_mono:
  "pending s d \<Longrightarrow> \<forall>k<next_node s. results s' k = results s k \<Longrightarrow>
   next_node s \<le> next_node s' \<Longrightarrow> next_block s \<le> next_block s' \<Longrightarrow> pending s' d"
  by (induction s d rule: pending.induct) auto

lemma de_exec_pending:
  "pending s d \<Longrightarrow> de_exec s d = ((b, m, off), s') \<Longrightarrow>
     blocks s' b = chain_value (blocks s) d \<and> b < next_block s' \<and>
     next_block s \<le> next_block s' \<and> (\<forall>k<next_block s. blocks s' k = blocks s k)"
proof (induction s d arbitrary: b m off s' rule: de_exec.induct)
  case (1 s n h f fa fk nr)
  then show ?case by (auto simp: submit_eq)
next
  case (2 s n d f fa fk nr)
  from "2.prems" have none: "results s n = None" and pd: "pending s d" by simp_all
  obtain h1 m1 off1 s1 where e: "de_exec s d = ((h1, m1, off1), s1)"
    by (metis prod.exhaust)
  from "2.IH" [OF none pd e]
  have ih: "blocks s1 h1 = chain_value (blocks s) d" "h1 < next_block s1"
    "next_block s \<le> next_block s1" "\<forall>k<next_block s. blocks s1 k = blocks s k"
    by auto
  from "2.prems"(2) none e
  have "((b, m, off), s') = submit (ref_count s1 d (- 1)) n f h1" by simp
  with ih show ?case
    by (auto simp: submit_eq ref_count_def)
qed

subsection \<open>The example states\<close>

lemma put_state_eq:
  "put_state = state0
     \<lparr>blocks := (\<lambda>_. 0)(0 := 3), next_block := 1,
      metas := (\<lambda>_. [])(0 := [MInt 1, MInt 1, MNone]), next_meta := 1,
      parts := (\<lambda>_. \<lparr>data_ref = Resolved 0, meta = 0, meta_offset = 0\<rparr>), next_part := 1\<rparr>"
  by (simp add: put_state_def put_def wrapper_put_def init_eq state0_def fun_eq_iff)

lemma pending_state_facts:
  "data_ref (parts pending_state (Suc 0)) = Deferred add_one"
  "meta (parts pending_state (Suc 0)) = Suc 0" "meta_offset (parts pending_state (Suc 0)) = 0"
  "metas pending_state (Suc 0) = [MNone, MNone, MNone]"
  "results pending_state 0 = None" "calls pending_state = []" "blocks pending_state 0 = 3"
  "next_block pending_state = Suc 0" "next_meta pending_state = 2" "next_part pending_state = 2"
  "ref_counter pending_state 0 = 1" "worker_ip pending_state = ''10.0.0.1''"
  "nrows pending_state v = 1" "ncols pending_state v = 1"
  by (simp_all add: pending_state_def put_state_eq apply_func_def new_de_def init_eq
      ref_count_def add_one_def state0_def)

lemma shared_state_facts:
  "data_ref (parts shared_state (Suc 0)) = Deferred add_one"
  "data_ref (parts shared_state 2) = Deferred add_one"
  "results shared_state 0 = None" "calls shared_state = []"
  "ref_counter shared_state 0 = 2"
  by (simp_all add: shared_state_def copy_def init_eq pending_state_facts ref_count_def add_one_def)

subsection \<open>Draining\<close>

lemma drain_resolved:
  "\<exists>h. data_ref (parts (drain_call_queue s p) p) = Resolved h"
  by (simp add: drain_call_queue_def split: data_ref.splits prod.splits)

text \<open>
  Claim C2: \<^verbatim>\<open>drain_call_queue\<close> is idempotent. On a partition whose data is a
  resolved handle it changes nothing; after a first drain the data is a resolved handle
  and a second drain leaves the whole store as the first left it: no call is added to
  those issued, and the handle, the metadata list and the offset of the partition keep
  their values.
\<close>

theorem drain_call_queue_idempotent:
  "(data_ref (parts s p) = Resolved h \<longrightarrow> drain_call_queue s p = s) \<and>
   (\<exists>h'. data_ref (parts (drain_call_queue s p) p) = Resolved h') \<and>
   drain_call_queue (drain_call_queue s p) p = drain_call_queue s p"
proof -
  obtain h' where h': "data_ref (parts (drain_call_queue s p) p) = Resolved h'"
    using drain_resolved by blast
  have "drain_call_queue (drain_call_queue s p) p = drain_call_queue s p"
    using h' by (simp add: drain_call_queue_def [of "drain_call_queue s p"])
  moreover have "data_ref (parts s p) = Resolved h \<longrightarrow> drain_call_queue s p = s"
    by (simp add: drain_call_queue_def)
  ultimately show ?thesis using h' by blast
qed

theorem drain_call_queue_idempotent_witness:
  "data_ref (parts put_state 0) = Resolved 0 \<and> drain_call_queue put_state 0 = put_state \<and>
   drain_call_queue (drain_call_queue pending_state 1) 1 = drain_call_queue pending_state 1"
proof -
  have "data_ref (parts put_state 0) = Resolved 0"
    by (simp add: put_state_eq)
  with drain_call_queue_idempotent [of put_state 0 0] drain_call_queue_idempotent [of pending_state 1]
  show ?thesis by simp
qed

lemma drain_all_append: "drain_all s (ps @ qs) = drain_all (drain_all s ps) qs"
  by (induction ps arbitrary: s) simp_all

lemma drain_memo:
  assumes "data_ref (parts s p) = Deferred d" and "results s (de_id d) = Some (h, m, off)"
  shows "drain_call_queue s p =
    ref_count (s\<lparr>parts := (parts s)(p := \<lparr>data_ref = Resolved h, meta = m, meta_offset = off\<rparr>)\<rparr>) d (- 1)"
  using assms by (simp add: drain_call_queue_def de_exec_memo)

lemma drain_first:
  assumes "data_ref (parts s p) = Deferred d" and "results s (de_id d) = None"
    and "sources_older d"
  shows "\<exists>h m off. results (drain_call_queue s p) (de_id d) = Some (h, m, off) \<and>
    parts (drain_call_queue s p) = (parts s)(p := \<lparr>data_ref = Resolved h, meta = m, meta_offset = off\<rparr>) \<and>
    count_list (calls (drain_call_queue s p)) (ExecNode (de_id d)) =
      count_list (calls s) (ExecNode (de_id d)) + 1"
proof -
  obtain h m off s1 where e: "de_exec s d = ((h, m, off), s1)"
    by (metis prod.exhaust)
  have d: "drain_call_queue s p =
    ref_count (s1\<lparr>parts := (parts s1)(p := \<lparr>data_ref = Resolved h, meta = m, meta_offset = off\<rparr>)\<rparr>) d (- 1)"
    using assms(1) e by (simp add: drain_call_queue_def)
  from de_exec_result [OF e] de_exec_frame [OF e] de_exec_above [OF assms(3) e] assms(2)
  show ?thesis
    by (simp add: d ref_count_def)
qed

lemma settled_drain:
  assumes "settled s d P D r" and "q \<in> P"
  shows "settled (drain_call_queue s q) d P (insert q D) r \<and>
    calls (drain_call_queue s q) = calls s \<and> blocks (drain_call_queue s q) = blocks s \<and>
    metas (drain_call_queue s q) = metas s"
proof (cases "data_ref (parts s q) = Deferred d")
  case True
  obtain h m off where r: "r = (h, m, off)" by (cases r) auto
  from assms r have res: "results s (de_id d) = Some (h, m, off)" by (simp add: settled_def)
  show ?thesis
    using assms by (auto simp: drain_memo [OF True res] ref_count_def settled_def r)
next
  case False
  with assms have "parts s q = \<lparr>data_ref = Resolved (fst r), meta = fst (snd r), meta_offset = snd (snd r)\<rparr>"
    by (auto simp: settled_def)
  then have "drain_call_queue s q = s" by (simp add: drain_call_queue_def)
  with assms \<open>parts s q = _\<close> show ?thesis by (auto simp: settled_def)
qed

lemma settled_drain_all:
  assumes "settled s d P D r" and "set qs \<subseteq> P"
  shows "settled (drain_all s qs) d P (D \<union> set qs) r \<and>
    calls (drain_all s qs) = calls s \<and> blocks (drain_all s qs) = blocks s \<and>
    metas (drain_all s qs) = metas s"
  using assms
proof (induction qs arbitrary: s D)
  case Nil
  then show ?case by simp
next
  case (Cons q qs)
  from Cons.prems have q: "q \<in> P" and qs: "set qs \<subseteq> P" by auto
  from settled_drain [OF Cons.prems(1) q] Cons.IH [OF _ qs, of "drain_call_queue s q" "insert q D"]
  show ?case by auto
qed

text \<open>
  Claim C1: let the partitions of \<open>P\<close> all hold one node \<open>d\<close> that has not been
  submitted. Draining a non-empty list of them, in any order, submits the node exactly
  once: the log of the executor holds one more call for it. The drained partitions all
  hold the outcome of that submission, and any later drains of partitions of \<open>P\<close> add
  no call, store no block and leave each drained partition with the same outcome.
\<close>

theorem at_most_once_submission:
  assumes "sources_older d" and "results s (de_id d) = None"
    and "\<forall>p\<in>P. data_ref (parts s p) = Deferred d"
    and "set ps \<subseteq> P" and "ps \<noteq> []"
  shows "\<exists>h m off.
    results (drain_all s ps) (de_id d) = Some (h, m, off) \<and>
    count_list (calls (drain_all s ps)) (ExecNode (de_id d)) =
      count_list (calls s) (ExecNode (de_id d)) + 1 \<and>
    (\<forall>p\<in>set ps. parts (drain_all s ps) p = \<lparr>data_ref = Resolved h, meta = m, meta_offset = off\<rparr>) \<and>
    (\<forall>qs. set qs \<subseteq> P \<longrightarrow>
       calls (drain_all (drain_all s ps) qs) = calls (drain_all s ps) \<and>
       blocks (drain_all (drain_all s ps) qs) = blocks (drain_all s ps) \<and>
       results (drain_all (drain_all s ps) qs) (de_id d) = Some (h, m, off) \<and>
       (\<forall>q\<in>set qs. parts (drain_all (drain_all s ps) qs) q =
          \<lparr>data_ref = Resolved h, meta = m, meta_offset = off\<rparr>))"
proof -
  obtain p ps' where ps: "ps = p # ps'" using assms(5) by (cases ps) auto
  with assms have p: "p \<in> P" and ps': "set ps' \<subseteq> P" and pd: "data_ref (parts s p) = Deferred d"
    by auto
  from drain_first [OF pd assms(2,1)] obtain h m off where
    r: "results (drain_call_queue s p) (de_id d) = Some (h, m, off)"
    and pa: "parts (drain_call_queue s p) = (parts s)(p := \<lparr>data_ref = Resolved h, meta = m, meta_offset = off\<rparr>)"
    and c: "count_list (calls (drain_call_queue s p)) (ExecNode (de_id d)) =
      count_list (calls s) (ExecNode (de_id d)) + 1"
    by blast
  have s1: "settled (drain_call_queue s p) d P {p} (h, m, off)"
    using r pa assms(3) by (auto simp: settled_def)
  from settled_drain_all [OF s1 ps']
  have s2: "settled (drain_all s ps) d P (set ps) (h, m, off)"
    and c2: "calls (drain_all s ps) = calls (drain_call_queue s p)"
    by (auto simp: ps)
  have later: "set qs \<subseteq> P \<Longrightarrow>
       calls (drain_all (drain_all s ps) qs) = calls (drain_all s ps) \<and>
       blocks (drain_all (drain_all s ps) qs) = blocks (drain_all s ps) \<and>
       results (drain_all (drain_all s ps) qs) (de_id d) = Some (h, m, off) \<and>
       (\<forall>q\<in>set qs. parts (drain_all (drain_all s ps) qs) q =
          \<lparr>data_ref = Resolved h, meta = m, meta_offset = off\<rparr>)" for qs
    using settled_drain_all [OF s2, of qs] by (auto simp: settled_def)
  from s2 have "results (drain_all s ps) (de_id d) = Some (h, m, off)"
    and "\<forall>p\<in>set ps. parts (drain_all s ps) p = \<lparr>data_ref = Resolved h, meta = m, meta_offset = off\<rparr>"
    by (auto simp: settled_def)
  with c c2 later show ?thesis by auto
qed

theorem at_most_once_submission_witness:
  "sources_older add_one \<and> results shared_state (de_id add_one) = None \<and>
   data_ref (parts shared_state 1) = Deferred add_one \<and>
   data_ref (parts shared_state 2) = Deferred add_one \<and>
   set [2] \<subseteq> {1, 2 :: nat} \<and> [2] \<noteq> ([] :: nat list) \<and>
   count_list (calls (drain_all shared_state [2])) (ExecNode 0) = 1 \<and>
   calls (drain_all (drain_all shared_state [2]) [1]) = calls (drain_all shared_state [2]) \<and>
   parts (drain_all (drain_all shared_state [2]) [1]) 1 = parts (drain_all shared_state [2]) 2"
proof -
  have h: "sources_older add_one" "results shared_state (de_id add_one) = None"
    "\<forall>p\<in>{1, 2}. data_ref (parts shared_state p) = Deferred add_one"
    "set [2] \<subseteq> {1, 2 :: nat}" "[2] \<noteq> ([] :: nat list)"
    by (simp_all add: shared_state_facts add_one_def)
  from at_most_once_submission [OF h] obtain h' m off where
    c: "count_list (calls (drain_all shared_state [2])) (ExecNode (de_id add_one)) =
      count_list (calls shared_state) (ExecNode (de_id add_one)) + 1"
    and p: "\<forall>p\<in>set [2]. parts (drain_all shared_state [2]) p =
      \<lparr>data_ref = Resolved h', meta = m, meta_offset = off\<rparr>"
    and l: "\<forall>qs. set qs \<subseteq> {1, 2} \<longrightarrow>
       calls (drain_all (drain_all shared_state [2]) qs) = calls (drain_all shared_state [2]) \<and>
       blocks (drain_all (drain_all shared_state [2]) qs) = blocks (drain_all shared_state [2]) \<and>
       results (drain_all (drain_all shared_state [2]) qs) (de_id add_one) = Some (h', m, off) \<and>
       (\<forall>q\<in>set qs. parts (drain_all (drain_all shared_state [2]) qs) q =
          \<lparr>data_ref = Resolved h', meta = m, meta_offset = off\<rparr>)"
    by blast
  from l have l1: "calls (drain_all (drain_all shared_state [2]) [1]) = calls (drain_all shared_state [2])"
    and l2: "parts (drain_all (drain_all shared_state [2]) [1]) 1 =
          \<lparr>data_ref = Resolved h', meta = m, meta_offset = off\<rparr>"
    by (simp_all del: drain_all.simps)
  from c have "count_list (calls (drain_all shared_state [2])) (ExecNode 0) = 1"
    by (simp add: shared_state_facts add_one_def del: drain_all.simps)
  with h l1 l2 p show ?thesis by (simp del: drain_all.simps)
qed

subsection \<open>Reference counting\<close>

lemma filter_one_less:
  assumes "distinct xs" and "q \<in> set xs" and "P q" and "\<not> Q q" and "\<And>x. x \<noteq> q \<Longrightarrow> Q x = P x"
  shows "length (filter P xs) = Suc (length (filter Q xs))"
  using assms
proof (induction xs)
  case Nil
  then show ?case by simp
next
  case (Cons a xs)
  show ?case
  proof (cases "a = q")
    case True
    with Cons.prems have "q \<notin> set xs" by simp
    then have "\<forall>x\<in>set xs. Q x = P x"
      using Cons.prems(5) by metis
    then have "filter Q xs = filter P xs"
      by (intro filter_cong) auto
    with True Cons.prems show ?thesis by simp
  next
    case False
    with Cons.prems have "Q a = P a" and "q \<in> set xs" and "distinct xs" by auto
    with Cons.IH [OF \<open>distinct xs\<close> \<open>q \<in> set xs\<close> Cons.prems(3,4,5)] show ?thesis by simp
  qed
qed

lemma filter_removeAll_length:
  assumes "distinct xs" and "q \<in> set xs" and "P q"
  shows "length (filter P xs) = Suc (length (filter P (removeAll q xs)))"
  using assms by (induction xs) (auto simp: distinct_removeAll)

lemma holders_cong:
  "(\<And>p. p \<in> set live \<Longrightarrow> data_ref (parts s' p) = data_ref (parts s p)) \<Longrightarrow>
   holders s' n live = holders s n live"
  by (auto simp: holders_def holds_node_def intro: filter_cong)

lemma balancedI:
  assumes "distinct live" and "\<forall>p\<in>set live. p < next_part s"
    and "\<forall>p\<in>set live. data_ref (parts s p) = Deferred d \<or> (\<exists>h. data_ref (parts s p) = Resolved h)"
    and "ref_counter s (de_id d) = int (length (holders s (de_id d) live))"
    and "count_list (calls s) (ExecNode (de_id d)) \<le> c + 1"
    and "results s (de_id d) = None \<longrightarrow> count_list (calls s) (ExecNode (de_id d)) = c"
  shows "balanced d c (s, live)"
  using assms by (simp add: balanced_def)

lemma balanced_new_partition:
  assumes b: "balanced d c (s, live)"
    and data: "data = Deferred d \<or> (\<exists>h. data = Resolved h)"
  shows "balanced d c (case init s data len wid ipa meta_arg off of (p, s') \<Rightarrow> (s', p # live))"
proof -
  define s' where "s' = snd (init s data len wid ipa meta_arg off)"
  define np where "np = next_part s"
  have i: "init s data len wid ipa meta_arg off = (np, s')"
    by (simp add: s'_def np_def init_eq)
  from b have dl: "distinct live" and lt: "\<forall>p\<in>set live. p < np"
    and sh: "\<forall>p\<in>set live. data_ref (parts s p) = Deferred d \<or> (\<exists>h. data_ref (parts s p) = Resolved h)"
    and rc: "ref_counter s (de_id d) = int (length (holders s (de_id d) live))"
    and cnt: "count_list (calls s) (ExecNode (de_id d)) \<le> c + 1"
    and cn: "results s (de_id d) = None \<longrightarrow> count_list (calls s) (ExecNode (de_id d)) = c"
    by (auto simp: balanced_def np_def)
  have pa: "parts s' = (parts s)(np := parts s' np)" and dn: "data_ref (parts s' np) = data"
    and nx: "next_part s' = Suc np" and ca: "calls s' = calls s" and re: "results s' = results s"
    and rf: "ref_counter s' (de_id d) = ref_counter s (de_id d) + (if data = Deferred d then 1 else 0)"
    using data
    by (auto simp: s'_def np_def init_eq ref_count_def split: option.splits data_ref.splits)
  have np: "np \<notin> set live" using lt by auto
  have same: "\<And>p. p \<in> set live \<Longrightarrow> data_ref (parts s' p) = data_ref (parts s p)"
    using np by (subst pa) auto
  then have ho: "holders s' (de_id d) live = holders s (de_id d) live"
    by (rule holders_cong)
  have hn: "holds_node s' (de_id d) np \<longleftrightarrow> data = Deferred d"
    using data by (auto simp: holds_node_def dn)
  have "balanced d c (s', np # live)"
  proof (rule balancedI)
    show "distinct (np # live)" using dl np by simp
    show "\<forall>p\<in>set (np # live). p < next_part s'" using lt nx by auto
    show "\<forall>p\<in>set (np # live). data_ref (parts s' p) = Deferred d \<or> (\<exists>h. data_ref (parts s' p) = Resolved h)"
      using sh data dn same by auto
    show "ref_counter s' (de_id d) = int (length (holders s' (de_id d) (np # live)))"
      using rf rc ho hn by (simp add: holders_def)
    show "count_list (calls s') (ExecNode (de_id d)) \<le> c + 1" using cnt ca by simp
    show "results s' (de_id d) = None \<longrightarrow> count_list (calls s') (ExecNode (de_id d)) = c"
      using cn ca re by simp
  qed
  then show ?thesis by (simp add: i)
qed

lemma balanced_drain:
  assumes so: "sources_older d" and b: "balanced d c (s, live)" and q: "q \<in> set live"
  shows "balanced d c (drain_call_queue s q, live)"
proof (cases "data_ref (parts s q) = Deferred d")
  case True
  define s' where "s' = drain_call_queue s q"
  obtain r s1 where e: "de_exec s d = (r, s1)" by fastforce
  obtain h m off where r: "r = (h, m, off)" by (cases r) auto
  from b have dl: "distinct live"
    and lt: "\<forall>p\<in>set live. p < next_part s"
    and sh: "\<forall>p\<in>set live. data_ref (parts s p) = Deferred d \<or> (\<exists>h. data_ref (parts s p) = Resolved h)"
    and rc: "ref_counter s (de_id d) = int (length (holders s (de_id d) live))"
    and cnt: "count_list (calls s) (ExecNode (de_id d)) \<le> c + 1"
    and cn: "results s (de_id d) = None \<longrightarrow> count_list (calls s) (ExecNode (de_id d)) = c"
    by (auto simp: balanced_def)
  have s': "s' = ref_count
      (s1\<lparr>parts := (parts s1)(q := \<lparr>data_ref = Resolved h, meta = m, meta_offset = off\<rparr>)\<rparr>) d (- 1)"
    using True e r by (simp add: s'_def drain_call_queue_def)
  note fr = de_exec_frame [OF e] and ab = de_exec_above [OF so e] and res = de_exec_result [OF e]
  have pa: "parts s' = (parts s)(q := \<lparr>data_ref = Resolved h, meta = m, meta_offset = off\<rparr>)"
    and nx: "next_part s' = next_part s"
    and rf: "ref_counter s' (de_id d) = ref_counter s (de_id d) - 1"
    and ca: "count_list (calls s') (ExecNode (de_id d)) =
       count_list (calls s) (ExecNode (de_id d)) + (if results s (de_id d) = None then 1 else 0)"
    and re: "results s' (de_id d) \<noteq> None"
    using fr ab res by (simp_all add: s' ref_count_def)
  have hq: "holds_node s (de_id d) q" and nq: "\<not> holds_node s' (de_id d) q"
    using True by (simp_all add: holds_node_def pa)
  have oth: "\<And>x. x \<noteq> q \<Longrightarrow> holds_node s' (de_id d) x = holds_node s (de_id d) x"
    by (simp add: holds_node_def pa)
  have len: "length (holders s (de_id d) live) = Suc (length (holders s' (de_id d) live))"
    unfolding holders_def
    using filter_one_less [of live q "holds_node s (de_id d)" "holds_node s' (de_id d)"] dl q hq nq oth
    by blast
  have "balanced d c (s', live)"
  proof (rule balancedI)
    show "distinct live" by (rule dl)
    show "\<forall>p\<in>set live. p < next_part s'" using lt nx by simp
    show "\<forall>p\<in>set live. data_ref (parts s' p) = Deferred d \<or> (\<exists>h. data_ref (parts s' p) = Resolved h)"
      using sh by (simp add: pa)
    show "ref_counter s' (de_id d) = int (length (holders s' (de_id d) live))"
      using rf rc len by simp
    show "count_list (calls s') (ExecNode (de_id d)) \<le> c + 1"
      using ca cnt cn by (auto split: if_splits)
    show "results s' (de_id d) = None \<longrightarrow> count_list (calls s') (ExecNode (de_id d)) = c"
      using re by auto
  qed
  then show ?thesis by (simp add: s'_def)
next
  case False
  from b q have "data_ref (parts s q) = Deferred d \<or> (\<exists>h. data_ref (parts s q) = Resolved h)"
    by (auto simp: balanced_def)
  with False obtain h where "data_ref (parts s q) = Resolved h" by auto
  then have "drain_call_queue s q = s" by (simp add: drain_call_queue_def)
  with b show ?thesis by simp
qed

lemma balanced_del:
  assumes b: "balanced d c (s, live)" and q: "q \<in> set live"
  shows "balanced d c (del s q, removeAll q live)"
proof -
  define s' where "s' = del s q"
  from b have dl: "distinct live"
    and lt: "\<forall>p\<in>set live. p < next_part s"
    and sh: "\<forall>p\<in>set live. data_ref (parts s p) = Deferred d \<or> (\<exists>h. data_ref (parts s p) = Resolved h)"
    and rc: "ref_counter s (de_id d) = int (length (holders s (de_id d) live))"
    and cnt: "count_list (calls s) (ExecNode (de_id d)) \<le> c + 1"
    and cn: "results s (de_id d) = None \<longrightarrow> count_list (calls s) (ExecNode (de_id d)) = c"
    by (auto simp: balanced_def)
  from sh q have shq: "data_ref (parts s q) = Deferred d \<or> (\<exists>h. data_ref (parts s q) = Resolved h)"
    by auto
  have pa: "parts s' = parts s" and nx: "next_part s' = next_part s" and ca: "calls s' = calls s"
    and re: "results s' = results s"
    by (simp_all add: s'_def del_def ref_count_def split: data_ref.splits)
  have rf: "ref_counter s' (de_id d) =
      ref_counter s (de_id d) - (if holds_node s (de_id d) q then 1 else 0)"
    using shq by (auto simp: s'_def del_def ref_count_def holds_node_def)
  have hs: "holders s' (de_id d) xs = holders s (de_id d) xs" for xs
    by (rule holders_cong) (simp add: pa)
  have len: "length (holders s (de_id d) live) =
      length (holders s (de_id d) (removeAll q live)) + (if holds_node s (de_id d) q then 1 else 0)"
  proof (cases "holds_node s (de_id d) q")
    case True
    then show ?thesis
      unfolding holders_def using filter_removeAll_length [OF dl q, of "holds_node s (de_id d)"]
      by simp
  next
    case False
    then have "filter (holds_node s (de_id d)) (removeAll q live) = filter (holds_node s (de_id d)) live"
      by (induction live) auto
    with False show ?thesis by (simp add: holders_def)
  qed
  have "balanced d c (s', removeAll q live)"
  proof (rule balancedI)
    show "distinct (removeAll q live)" using dl by (simp add: distinct_removeAll)
    show "\<forall>p\<in>set (removeAll q live). p < next_part s'" using lt nx by simp
    show "\<forall>p\<in>set (removeAll q live).
        data_ref (parts s' p) = Deferred d \<or> (\<exists>h. data_ref (parts s' p) = Resolved h)"
      using sh by (simp add: pa)
    show "ref_counter s' (de_id d) = int (length (holders s' (de_id d) (removeAll q live)))"
      using rf rc len by (simp add: hs)
    show "count_list (calls s') (ExecNode (de_id d)) \<le> c + 1" using cnt ca by simp
    show "results s' (de_id d) = None \<longrightarrow> count_list (calls s') (ExecNode (de_id d)) = c"
      using cn ca re by simp
  qed
  then show ?thesis by (simp add: s'_def)
qed

lemma balanced_step:
  assumes so: "sources_older d" and b: "balanced d c (s, live)"
  shows "balanced d c (step d (s, live) e)"
proof (cases e)
  case Construct
  show ?thesis
    unfolding Construct step.simps by (rule balanced_new_partition [OF b]) simp
next
  case (Copy q)
  show ?thesis
  proof (cases "q \<in> set live")
    case True
    with b have "data_ref (parts s q) = Deferred d \<or> (\<exists>h. data_ref (parts s q) = Resolved h)"
      by (auto simp: balanced_def)
    from balanced_new_partition [OF b this] True show ?thesis
      by (simp add: Copy copy_def)
  next
    case False
    with b show ?thesis by (simp add: Copy)
  qed
next
  case (Drain q)
  with balanced_drain [OF so b] b show ?thesis by simp
next
  case (Destroy q)
  with balanced_del [OF b] b show ?thesis by simp
qed

lemma balanced_run:
  assumes "sources_older d" and "balanced d c cfg"
  shows "balanced d c (foldl (step d) cfg es)"
  using assms(2)
proof (induction es arbitrary: cfg)
  case Nil
  then show ?case by simp
next
  case (Cons e es)
  obtain s live where cfg: "cfg = (s, live)" by (cases cfg) auto
  from Cons.prems have "balanced d c (step d cfg e)"
    unfolding cfg by (rule balanced_step [OF assms(1)])
  then show ?case by (simp add: Cons.IH)
qed

lemma step_delta:
  assumes so: "sources_older d" and b: "balanced d c (s, live)"
  shows "ref_counter (fst (step d (s, live) e)) (de_id d) =
    ref_counter s (de_id d) + delta (s, live) (de_id d) e"
proof -
  have sh: "q \<in> set live \<Longrightarrow> data_ref (parts s q) = Deferred d \<or> (\<exists>h. data_ref (parts s q) = Resolved h)" for q
    using b by (auto simp: balanced_def)
  show ?thesis
  proof (cases e)
    case Construct
    then show ?thesis by (simp add: init_eq ref_count_def)
  next
    case (Copy q)
    then show ?thesis using sh [of q]
      by (auto simp: copy_def init_eq ref_count_def holds_node_def)
  next
    case (Drain q)
    show ?thesis
    proof (cases "q \<in> set live \<and> data_ref (parts s q) = Deferred d")
      case True
      obtain r s1 where e: "de_exec s d = (r, s1)" by fastforce
      from de_exec_above [OF so e] True e show ?thesis
        by (simp add: Drain drain_call_queue_def ref_count_def holds_node_def split: prod.splits)
    next
      case False
      then show ?thesis using sh [of q]
        by (auto simp: Drain drain_call_queue_def holds_node_def)
    qed
  next
    case (Destroy q)
    then show ?thesis using sh [of q]
      by (auto simp: del_def ref_count_def holds_node_def)
  qed
qed

text \<open>
  Claim C4: take a node \<open>d\<close> whose reference count is 0 and any sequence of
  constructions, copies, drains and destructions of partitions over it. Each event
  changes the count by exactly \<open>delta\<close>: plus one for a partition constructed with the
  node as data (a construction, or the copy of a partition that holds it), minus one for
  the drain or the destruction of a partition that still holds it, nothing otherwise. So
  the count is the number of live partitions that still hold the node, it is 0 once
  none does, in particular once every partition is destroyed, and the node is submitted
  at most once.
\<close>

theorem reference_count_balance:
  assumes "sources_older d" and "ref_counter s (de_id d) = 0"
    and "run_events d s es = (s', live)"
  shows "ref_counter s' (de_id d) = int (length (holders s' (de_id d) live)) \<and>
    (holders s' (de_id d) live = [] \<longrightarrow> ref_counter s' (de_id d) = 0) \<and>
    (live = [] \<longrightarrow> ref_counter s' (de_id d) = 0) \<and>
    (\<forall>e. ref_counter (fst (step d (s', live) e)) (de_id d) =
       ref_counter s' (de_id d) + delta (s', live) (de_id d) e) \<and>
    count_list (calls s') (ExecNode (de_id d)) \<le> count_list (calls s) (ExecNode (de_id d)) + 1"
proof -
  have "balanced d (count_list (calls s) (ExecNode (de_id d))) (s, [])"
    using assms(2) by (simp add: balanced_def holders_def)
  from balanced_run [OF assms(1) this, of es] assms(3)
  have b: "balanced d (count_list (calls s) (ExecNode (de_id d))) (s', live)"
    by (simp add: run_events_def)
  from step_delta [OF assms(1) b]
  have "\<forall>e. ref_counter (fst (step d (s', live) e)) (de_id d) =
       ref_counter s' (de_id d) + delta (s', live) (de_id d) e"
    by blast
  with b show ?thesis
    by (auto simp: balanced_def holders_def)
qed

lemma run_example:
  "snd (run_events add_one put_state [Construct, Copy 1, Drain 1, Destroy 2, Destroy 1]) = []"
  "calls (fst (run_events add_one put_state [Construct, Copy 1, Drain 1, Destroy 2, Destroy 1])) =
     [ExecNode 0]"
  by (simp_all add: run_events_def put_state_eq state0_def add_one_def init_eq copy_def
      drain_call_queue_def submit_eq del_def ref_count_def)

theorem reference_count_balance_witness:
  "sources_older add_one \<and> ref_counter put_state (de_id add_one) = 0 \<and>
   snd (run_events add_one put_state [Construct, Copy 1, Drain 1, Destroy 2, Destroy 1]) = [] \<and>
   ref_counter (fst (run_events add_one put_state [Construct, Copy 1, Drain 1, Destroy 2, Destroy 1])) 0 = 0 \<and>
   count_list (calls (fst (run_events add_one put_state [Construct, Copy 1, Drain 1, Destroy 2, Destroy 1])))
     (ExecNode 0) = 1"
proof -
  let ?es = "[Construct, Copy 1, Drain 1, Destroy 2, Destroy 1]"
  have h: "sources_older add_one" "ref_counter put_state (de_id add_one) = 0"
    "run_events add_one put_state ?es =
       (fst (run_events add_one put_state ?es), snd (run_events add_one put_state ?es))"
    by (simp_all add: add_one_def put_state_eq state0_def)
  from reference_count_balance [OF h]
  have z: "snd (run_events add_one put_state ?es) = [] \<longrightarrow>
      ref_counter (fst (run_events add_one put_state ?es)) (de_id add_one) = 0"
    by blast
  have i: "de_id add_one = 0" by (simp add: add_one_def)
  from z run_example(1) have "ref_counter (fst (run_events add_one put_state ?es)) 0 = 0"
    unfolding i by blast
  moreover have "count_list (calls (fst (run_events add_one put_state ?es))) (ExecNode 0) = 1"
    using run_example(2) by simp
  ultimately show ?thesis using h(1,2) run_example(1) by blast
qed

subsection \<open>Lazy and eager application\<close>

text \<open>
  Claim C5: in lazy mode \<^verbatim>\<open>apply\<close> returns a new partition whose data is a new node,
  not submitted, over the data of the partition it is called on, with the function
  given; the log of the executor, its blocks and its scalars are as before.
\<close>

theorem apply_lazy:
  assumes "lazy_execution s" and "apply_func s p f fa fk = (q, s')"
  shows "q = next_part s \<and>
    data_ref (parts s' q) =
      Deferred (DeferredExecution (next_node s) (data_ref (parts s p)) f None None 1) \<and>
    next_node s' = Suc (next_node s) \<and> results s' (next_node s) = None \<and>
    calls s' = calls s \<and> blocks s' = blocks s \<and> next_block s' = next_block s \<and>
    scalars s' = scalars s \<and> next_scalar s' = next_scalar s"
  using assms
  by (auto simp: apply_func_def new_de_def init_def MetaList_def ref_count_def Let_def
      split: data_ref.splits prod.splits)

theorem apply_lazy_witness:
  "lazy_execution put_state \<and>
   fst (apply_func put_state 0 (\<lambda>x. x + 1) True True) = 1 \<and>
   data_ref (parts pending_state 1) = Deferred add_one \<and>
   calls pending_state = calls put_state \<and> blocks pending_state = blocks put_state"
proof -
  have l: "lazy_execution put_state" by (simp add: put_state_eq state0_def)
  have e: "apply_func put_state 0 (\<lambda>x. x + 1) True True =
      (fst (apply_func put_state 0 (\<lambda>x. x + 1) True True), pending_state)"
    by (simp add: pending_state_def)
  have n: "next_part put_state = 1" "next_node put_state = 0" "data_ref (parts put_state 0) = Resolved 0"
    by (simp_all add: put_state_eq state0_def)
  from apply_lazy [OF l e] l show ?thesis
    by (auto simp: n add_one_def)
qed

lemma pending_new_de:
  assumes hv: "holds_value s p x" and n: "new_de s (data_ref (parts s p)) f fa fk nr = (de, s1)"
  shows "pending s1 de \<and> chain_value (blocks s1) de = f x"
proof (cases "data_ref (parts s p)")
  case (Resolved h)
  with hv new_de_frame [OF n] show ?thesis by (simp add: holds_value_def)
next
  case (Deferred d)
  with hv have pd: "pending s d" and cv: "chain_value (blocks s) d = x"
    by (simp_all add: holds_value_def)
  note fr = new_de_frame [OF n]
  have "pending s1 d"
    by (rule pending_mono [OF pd]) (simp_all add: fr)
  with pending_id [OF pd] cv Deferred fr show ?thesis by simp
qed

lemma apply_func_value:
  assumes hv: "holds_value s p x" and a: "apply_func s p f fa fk = (q, s')"
  shows "holds_value s' q (f x)"
proof (cases "lazy_execution s")
  case True
  obtain de s1 where n: "new_de s (data_ref (parts s p)) f None None 1 = (de, s1)" by fastforce
  from a True n have i: "init s1 (Deferred de) MNone MNone MNone None 0 = (q, s')"
    by (simp add: apply_func_def)
  from pending_new_de [OF hv n] have pd: "pending s1 de" and cv: "chain_value (blocks s1) de = f x"
    by simp_all
  note fr = init_frame [OF i]
  have "pending s' de" by (rule pending_mono [OF pd]) (simp_all add: fr)
  with cv fr show ?thesis by (simp add: holds_value_def)
next
  case False
  show ?thesis
  proof (cases "\<exists>h. data_ref (parts s p) = Resolved h \<and> fa \<and> fk")
    case True
    then obtain h where h: "data_ref (parts s p) = Resolved h" and flat: "fa \<and> fk" by auto
    obtain b l w i s1 where r: "remote_exec_func s f h = ((b, l, w, i), s1)"
      by (metis prod.exhaust)
    from a False h flat r have i: "init s1 (Resolved b) (MRef l) (MRef w) (MRef i) None 0 = (q, s')"
      by (simp add: apply_func_def)
    from r have "b < next_block s1" "blocks s1 b = f (blocks s h)"
      by (auto simp: remote_exec_func_def wrapper_put_def new_scalar_def Let_def)
    with hv h init_frame [OF i] show ?thesis by (simp add: holds_value_def)
  next
    case nf: False
    define fa' fk' where "fa' = (case data_ref (parts s p) of Resolved h \<Rightarrow> Some fa | Deferred d \<Rightarrow> None)"
      and "fk' = (case data_ref (parts s p) of Resolved h \<Rightarrow> Some fk | Deferred d \<Rightarrow> None)"
    obtain de s1 where n: "new_de s (data_ref (parts s p)) f fa' fk' 1 = (de, s1)" by fastforce
    obtain b m off s2 where e: "de_exec (ref_count s1 de 1) de = ((b, m, off), s2)"
      by (metis prod.exhaust)
    from a False nf n e have i: "init s2 (Resolved b) MNone MNone MNone (Some m) off = (q, s')"
      by (auto simp: apply_func_def fa'_def fk'_def split: data_ref.splits)
    from pending_new_de [OF hv n] have pd: "pending s1 de" and cv: "chain_value (blocks s1) de = f x"
      by simp_all
    have pd': "pending (ref_count s1 de 1) de"
      by (rule pending_mono [OF pd]) simp_all
    from de_exec_pending [OF pd' e] cv have "blocks s2 b = f x" "b < next_block s2" by simp_all
    with init_frame [OF i] show ?thesis by (simp add: holds_value_def)
  qed
qed

lemma apply_all_value:
  "holds_value s p x \<Longrightarrow> apply_all s p cs = (q, s') \<Longrightarrow>
   holds_value s' q (foldl (\<lambda>y c. fst c y) x cs)"
proof (induction cs arbitrary: s p x)
  case Nil
  then show ?case by simp
next
  case (Cons c cs)
  obtain f fa fk where c: "c = (f, fa, fk)" by (cases c) auto
  obtain q1 s1 where a: "apply_func s p f fa fk = (q1, s1)" by fastforce
  from Cons.prems(2) have r: "apply_all s1 q1 cs = (q, s')" by (simp add: c a)
  from Cons.IH [OF apply_func_value [OF Cons.prems(1) a] r] show ?case by (simp add: c)
qed

lemma put_value: "put s v = (p, s') \<Longrightarrow> holds_value s' p v"
  by (auto simp: put_def wrapper_put_def init_eq holds_value_def)

lemma to_value_holds:
  assumes "holds_value s p x"
  shows "to_value s p = Some x"
proof (cases "data_ref (parts s p)")
  case (Resolved h)
  with assms show ?thesis
    by (simp add: to_value_def data_of_def drain_call_queue_def holds_value_def)
next
  case (Deferred d)
  with assms have pd: "pending s d" and cv: "chain_value (blocks s) d = x"
    by (simp_all add: holds_value_def)
  obtain b m off s1 where e: "de_exec s d = ((b, m, off), s1)" by (metis prod.exhaust)
  from de_exec_pending [OF pd e] cv Deferred e show ?thesis
    by (simp add: to_value_def data_of_def drain_call_queue_def)
qed

text \<open>
  Claim C3: put a value in a partition, apply a sequence of functions, each to the
  partition the previous call returned, and materialize the last partition. In lazy mode
  (the graph is built and drained at the end) and in eager mode (each call is submitted
  at once) the result exists and is the same: the functions applied in order to the
  value.
\<close>

theorem lazy_toggle_equivalence:
  "run_applies (s\<lparr>lazy_execution := True\<rparr>) v cs = run_applies (s\<lparr>lazy_execution := False\<rparr>) v cs \<and>
   run_applies (s\<lparr>lazy_execution := True\<rparr>) v cs = Some (foldl (\<lambda>y c. fst c y) v cs) \<and>
   run_applies (s\<lparr>lazy_execution := False\<rparr>) v cs = Some (foldl (\<lambda>y c. fst c y) v cs)"
proof -
  have "run_applies t v cs = Some (foldl (\<lambda>y c. fst c y) v cs)" for t :: "'a state"
  proof -
    obtain p s1 where p: "put t v = (p, s1)" by fastforce
    obtain q s2 where a: "apply_all s1 p cs = (q, s2)" by fastforce
    from to_value_holds [OF apply_all_value [OF put_value [OF p] a]] p a
    show ?thesis by (simp add: run_applies_def)
  qed
  then show ?thesis by simp
qed

theorem lazy_toggle_equivalence_witness:
  "run_applies (state0\<lparr>lazy_execution := True\<rparr>) 3
     [(\<lambda>x. x + 1, True, True), (\<lambda>x. 2 * x, True, True)] = Some 8 \<and>
   run_applies (state0\<lparr>lazy_execution := False\<rparr>) 3
     [(\<lambda>x. x + 1, True, True), (\<lambda>x. 2 * x, True, True)] = Some 8"
  using lazy_toggle_equivalence [of state0 3 "[(\<lambda>x. x + 1, True, True), (\<lambda>x. 2 * x, True, True)]"]
  by simp

subsection \<open>Metadata\<close>

lemma meta_setitem_frame:
  assumes "meta_setitem s m i v = Some s'"
  shows "parts s' = parts s" "calls s' = calls s" "next_block s' = next_block s"
    "next_scalar s' = next_scalar s"
  using assms by (auto simp: meta_setitem_def)






text \<open>
  Claim C7, as stated, fails: the location is the last slot of the list, whatever the
  offset, so the location one partition writes is the location the other reads.
\<close>

theorem ip_slot_shared_counterexample:
  "meta (parts shared_meta_state 0) = meta (parts shared_meta_state 1) \<and>
   meta_offset (parts shared_meta_state 0) = 0 \<and> meta_offset (parts shared_meta_state 1) = 2 \<and>
   ip_cache shared_meta_state 1 = Some (MStr ''10.0.0.1'') \<and>
   ip_cache (the (set_ip_cache shared_meta_state 0 (MStr ''10.0.0.2''))) 1 = Some (MStr ''10.0.0.2'')"
  by (simp add: shared_meta_state_def state0_def cache_defs)

text \<open>
  Claim C7, amended: two partitions share one metadata list of at least five slots, at
  the offsets 0 and 2. When one of them updates its row or column slot, the cached row,
  column and location of the other are unchanged. The location slot is the last slot of
  the list and is common to both: when one of them updates it, both read the new
  location, and the cached row and column of the other are unchanged.
\<close>

theorem meta_offset_isolation:
  assumes "meta (parts s p) = meta (parts s q)"
    and "meta_offset (parts s p) = 0" and "meta_offset (parts s q) = 2"
    and "5 \<le> length (metas s (meta (parts s p)))"
  shows "(\<exists>s'. set_length_cache s p v = Some s' \<and> cached s' q = cached s q) \<and>
         (\<exists>s'. set_width_cache s p v = Some s' \<and> cached s' q = cached s q) \<and>
         (\<exists>s'. set_length_cache s q v = Some s' \<and> cached s' p = cached s p) \<and>
         (\<exists>s'. set_width_cache s q v = Some s' \<and> cached s' p = cached s p) \<and>
         (\<exists>s'. set_ip_cache s p v = Some s' \<and> ip_cache s' q = Some v \<and> ip_cache s' p = Some v \<and>
               length_cache s' q = length_cache s q \<and> width_cache s' q = width_cache s q) \<and>
         (\<exists>s'. set_ip_cache s q v = Some s' \<and> ip_cache s' p = Some v \<and> ip_cache s' q = Some v \<and>
               length_cache s' p = length_cache s p \<and> width_cache s' p = width_cache s p)"
  using assms by (auto simp add: cached_def cache_defs Let_def)

theorem meta_offset_isolation_witness:
  "meta (parts shared_meta_state 0) = meta (parts shared_meta_state 1) \<and>
   meta_offset (parts shared_meta_state 0) = 0 \<and> meta_offset (parts shared_meta_state 1) = 2 \<and>
   5 \<le> length (metas shared_meta_state (meta (parts shared_meta_state 0))) \<and>
   (\<exists>s'. set_length_cache shared_meta_state 0 (MInt 7) = Some s' \<and>
      cached s' 1 = cached shared_meta_state 1) \<and>
   (\<exists>s'. set_ip_cache shared_meta_state 1 (MInt 7) = Some s' \<and> ip_cache s' 0 = Some (MInt 7))"
proof -
  have h: "meta (parts shared_meta_state 0) = meta (parts shared_meta_state 1)"
    "meta_offset (parts shared_meta_state 0) = 0" "meta_offset (parts shared_meta_state 1) = 2"
    "5 \<le> length (metas shared_meta_state (meta (parts shared_meta_state 0)))"
    by (simp_all add: shared_meta_state_def state0_def)
  from meta_offset_isolation [OF h, of "MInt 7"] h show ?thesis by blast
qed

text \<open>
  Claim C8: \<^verbatim>\<open>ip\<close> on a partition whose location slot is empty drains the call queue,
  and the drain fills the slot, but the method returns the value it read before the
  drain, \<^verbatim>\<open>None\<close>, where \<^verbatim>\<open>length\<close> and \<^verbatim>\<open>width\<close> read the slot again.
\<close>

theorem ip_returns_none_after_drain:
  "ip_cache pending_state 1 = Some MNone \<and>
   map_option fst (ip pending_state 1 True) = Some MNone \<and>
   ip_cache (snd (the (ip pending_state 1 True))) 1 = Some (MStr ''10.0.0.1'')"
  by (simp add: ip_def cache_defs drain_call_queue_def submit_eq pending_state_facts
      add_one_def ref_count_def)

text \<open>The sibling \<^verbatim>\<open>length\<close>, in the same state, returns what the drain wrote.\<close>

lemma length_reads_again_after_drain:
  "length_cache pending_state 1 = Some MNone \<and>
   map_option fst (length_part pending_state 1 True) = Some (MInt 1)"
  by (simp add: length_part_def cache_defs drain_call_queue_def submit_eq pending_state_facts
      add_one_def ref_count_def)

section \<open>Properties of the utilities\<close>

subsection \<open>The lazy categorical proxy\<close>

text \<open>
  Claim C9: the constructor of the lazy categorical proxy, given \<^verbatim>\<open>None\<close> for the
  table, returns no proxy but an error that carries the diagnostic; given a table, it
  returns the proxy, which stores the table and the column name.
\<close>

theorem lazy_proxy_init:
  "LazyProxyCategoricalDtype None column_name =
     Inl (InternalError ''attempted to bind 'None' pyarrow table to a lazy category'') \<and>
   LazyProxyCategoricalDtype (Some t) column_name =
     Inr \<lparr>proxy_table = Some t, proxy_column_name = column_name, proxy_ordered = False,
          proxy_lazy_categories = None\<rparr>"
  by (simp add: LazyProxyCategoricalDtype_def catch_bugs_and_request_email_def)

subsection \<open>Column names\<close>

lemma and_63: "x AND 63 = take_bit 6 (x :: nat)"
proof -
  have "(63 :: nat) = mask 6" by (simp add: mask_eq_exp_minus_1)
  then show ?thesis by (simp add: take_bit_eq_mask)
qed

lemma and_255: "x AND 255 = take_bit 8 (x :: nat)"
proof -
  have "(255 :: nat) = mask 8" by (simp add: mask_eq_exp_minus_1)
  then show ?thesis by (simp add: take_bit_eq_mask)
qed

lemma bit_field6: "bit (field6 s n) k \<longleftrightarrow> s \<le> k \<and> k < s + 6 \<and> bit n k"
  by (auto simp: field6_def bit_simps)

lemma bit_byte_at: "bit (byte_at s n) j \<longleftrightarrow> j < 8 \<and> bit n (s + j)"
  by (auto simp: byte_at_def bit_simps)

lemma of_char_take_bit: "(of_char c :: nat) = take_bit 8 (of_char c)"
  by (simp add: take_bit_eq_mod)

lemma bit_of_char_less: "bit (of_char c :: nat) k \<Longrightarrow> k < 8"
  by (subst (asm) of_char_take_bit) (simp add: bit_simps)

lemma bit_put_byte: "bit (put_byte s c) k \<longleftrightarrow> s \<le> k \<and> k < s + 8 \<and> bit (of_char c :: nat) (k - s)"
  using bit_of_char_less [of c "k - s"]
  by (auto simp: put_byte_def bit_simps)

lemma all_syms_ok: "list_all sym_ok [0..<64]"
  by code_simp

lemma sym_ok: "s < 64 \<Longrightarrow> sym_ok s"
  using all_syms_ok by (simp add: list_all_iff)

lemma not_alnum_underscore: "\<not> is_alnum CHR ''_''"
  by (simp add: is_alnum_def)

lemma read_sym:
  assumes "s < 64"
  shows "read_chunk (Suc k) i seen (BASE_LIST ! s @ rest) n =
    read_chunk k (Suc i) (seen @ BASE_LIST ! s) rest (n OR push_bit (6 * (3 - i)) s)"
proof -
  from sym_ok [OF assms] show ?thesis
    unfolding sym_ok_def
    by (auto simp: not_alnum_underscore split: list.splits)
qed

lemma str_small: "t < 10 \<Longrightarrow> str_int (int t) = [digit_char t]"
  by (simp add: str_int_def str_nat.simps)

lemma tail_len_digits:
  "TAIL_LEN [CHR ''_'', digit_char 0] = Some 0" "TAIL_LEN [CHR ''_'', digit_char 1] = Some 1"
  "TAIL_LEN [CHR ''_'', digit_char 2] = Some 2" "TAIL_LEN [CHR ''_'', digit_char 3] = Some 3"
  by code_simp+

lemma tail_len_digit: "t \<le> 3 \<Longrightarrow> TAIL_LEN [CHR ''_'', digit_char t] = Some t"
proof -
  assume "t \<le> 3"
  then have "t = 0 \<or> t = 1 \<or> t = 2 \<or> t = 3" by auto
  then show ?thesis using tail_len_digits by auto
qed

lemma read_tail:
  assumes "t \<le> 3"
  shows "read_chunk (Suc k) i seen (CHR ''_'' # digit_char t # rest) n =
    Inr (n, Some (if t = 3 then 0 else t), seen @ [CHR ''_'', digit_char t], rest)"
  using tail_len_digit [OF assms] by (simp add: Let_def)

lemma sym_at_less: "sym_at n j < 64"
  by (simp add: sym_at_def and_63 take_bit_eq_mod)

lemma push_sym_at: "push_bit (6 * (3 - j)) (sym_at n j) = field6 (6 * (3 - j)) n"
  by (simp add: sym_at_def field6_def and_63)

lemma chunk_syms_eq: "chunk_syms n nb = concat (map (\<lambda>j. BASE_LIST ! sym_at n j) [0..<nb + 1])"
  by (simp add: chunk_syms_def sym_at_def)

lemma read_syms:
  "read_chunk (m + k) i seen (concat (map (\<lambda>j. BASE_LIST ! sym_at n j) [i..<i + m]) @ rest) acc =
   read_chunk k (i + m) (seen @ concat (map (\<lambda>j. BASE_LIST ! sym_at n j) [i..<i + m])) rest
     (foldl (\<lambda>a j. a OR field6 (6 * (3 - j)) n) acc [i..<i + m])"
proof (induction m arbitrary: i seen acc)
  case 0
  then show ?case by simp
next
  case (Suc m)
  have u: "[i..<i + Suc m] = i # [Suc i..<Suc i + m]"
    by (simp add: upt_rec)
  have "read_chunk (Suc m + k) i seen
      (concat (map (\<lambda>j. BASE_LIST ! sym_at n j) [i..<i + Suc m]) @ rest) acc =
    read_chunk (Suc (m + k)) i seen
      (BASE_LIST ! sym_at n i @ (concat (map (\<lambda>j. BASE_LIST ! sym_at n j) [Suc i..<Suc i + m]) @ rest)) acc"
    by (simp only: u list.map concat.simps append_assoc add_Suc)
  also have "\<dots> = read_chunk (m + k) (Suc i) (seen @ BASE_LIST ! sym_at n i)
      (concat (map (\<lambda>j. BASE_LIST ! sym_at n j) [Suc i..<Suc i + m]) @ rest)
      (acc OR field6 (6 * (3 - i)) n)"
    by (simp only: read_sym [OF sym_at_less] push_sym_at)
  also have "\<dots> = read_chunk k (Suc i + m)
      ((seen @ BASE_LIST ! sym_at n i) @ concat (map (\<lambda>j. BASE_LIST ! sym_at n j) [Suc i..<Suc i + m])) rest
      (foldl (\<lambda>a j. a OR field6 (6 * (3 - j)) n) (acc OR field6 (6 * (3 - i)) n) [Suc i..<Suc i + m])"
    by (rule Suc.IH)
  also have "\<dots> = read_chunk k (i + Suc m)
      (seen @ concat (map (\<lambda>j. BASE_LIST ! sym_at n j) [i..<i + Suc m])) rest
      (foldl (\<lambda>a j. a OR field6 (6 * (3 - j)) n) acc [i..<i + Suc m])"
    by (simp only: u list.map concat.simps append_assoc foldl_Cons add_Suc_shift)
  finally show ?case .
qed

lemma read_chunk_syms:
  "read_chunk (Suc nb + k) 0 seen (chunk_syms n nb @ rest) 0 =
   read_chunk k (Suc nb) (seen @ chunk_syms n nb) rest (dec_int n (Suc nb))"
  using read_syms [of "Suc nb" k 0 seen n rest 0]
  by (simp only: chunk_syms_eq dec_int_def add_0 Suc_eq_plus1)

lemma chunk_int1: "chunk_int [of_char a] = put_byte 16 a"
  by (simp add: chunk_int_def put_byte_def)

lemma chunk_int2: "chunk_int [of_char a, of_char b] = put_byte 16 a OR put_byte 8 b"
  by (simp add: chunk_int_def put_byte_def upt_rec)

lemma chunk_int3: "chunk_int [of_char a, of_char b, of_char c] = put_byte 16 a OR put_byte 8 b OR put_byte 0 c"
  by (simp add: chunk_int_def put_byte_def upt_rec or.assoc)

lemma dec_int2: "dec_int n 2 = field6 18 n OR field6 12 n"
  by (simp add: dec_int_def upt_rec)

lemma dec_int3: "dec_int n 3 = field6 18 n OR field6 12 n OR field6 6 n"
  by (simp add: dec_int_def upt_rec or.assoc)

lemma dec_int4: "dec_int n 4 = field6 18 n OR field6 12 n OR field6 6 n OR field6 0 n"
  by (simp add: dec_int_def upt_rec or.assoc)

lemma chunk_bytes_eq: "chunk_bytes n nb = map (\<lambda>i. char_of (byte_at (8 * (2 - i)) n)) [0..<nb]"
  by (simp add: chunk_bytes_def byte_at_def and_255)

lemma char_of_byte: "byte_at s n = of_char c \<Longrightarrow> char_of (byte_at s n) = c"
  by simp

lemmas bit_chunk = bit_byte_at bit_field6 bit_or_iff bit_put_byte

lemma chunk_roundtrip1:
  "chunk_bytes (dec_int (chunk_int (map of_char [a])) 2) 1 = [a]"
proof -
  have "byte_at 16 (dec_int (put_byte 16 a) 2) = of_char a"
    by (intro bit_eqI) (auto simp: dec_int2 bit_chunk dest: bit_of_char_less)
  then show ?thesis
    by (simp add: chunk_bytes_eq chunk_int1)
qed

lemma byte_at_of_char: "byte_at 0 (of_char c) = of_char c"
  by (simp add: byte_at_def take_bit_eq_mod)

lemma chunk_roundtrip2:
  "chunk_bytes (dec_int (chunk_int [of_char a, of_char b]) 3) 2 = [a, b]"
proof -
  let ?n = "put_byte 16 a OR put_byte 8 b"
  have "byte_at 16 (dec_int ?n 3) = byte_at 0 (of_char a)"
    by (intro bit_eqI) (auto simp: dec_int3 bit_chunk)
  moreover have "byte_at 8 (dec_int ?n 3) = byte_at 0 (of_char b)"
    by (intro bit_eqI) (auto simp: dec_int3 bit_chunk)
  ultimately show ?thesis
    by (simp add: chunk_bytes_eq chunk_int2 upt_rec byte_at_of_char)
qed

lemma chunk_roundtrip3:
  "chunk_bytes (dec_int (chunk_int [of_char a, of_char b, of_char c]) 4) 3 = [a, b, c]"
proof -
  let ?n = "put_byte 16 a OR put_byte 8 b OR put_byte 0 c"
  have "byte_at 16 (dec_int ?n 4) = byte_at 0 (of_char a)"
    by (intro bit_eqI) (auto simp: dec_int4 bit_chunk)
  moreover have "byte_at 8 (dec_int ?n 4) = byte_at 0 (of_char b)"
    by (intro bit_eqI) (auto simp: dec_int4 bit_chunk)
  moreover have "byte_at 0 (dec_int ?n 4) = byte_at 0 (of_char c)"
    by (intro bit_eqI) (auto simp: dec_int4 bit_chunk)
  ultimately show ?thesis
    by (simp add: chunk_bytes_eq chunk_int3 upt_rec byte_at_of_char)
qed

lemma utf8_valid_Nil [simp]: "utf8_valid []"
  by (simp add: utf8_valid.simps)

lemma utf8_valid_step: "s \<noteq> [] \<Longrightarrow> utf8_valid s = (case utf8_next s of None \<Rightarrow> False | Some r \<Rightarrow> utf8_valid r)"
  by (subst utf8_valid.simps) simp

lemma utf8_next_ascii: "(of_char b :: nat) < 128 \<Longrightarrow> utf8_next (b # bs) = Some bs"
  by (simp add: utf8_next.simps)

lemma utf8_valid_ascii: "(of_char b :: nat) < 128 \<Longrightarrow> utf8_valid (b # bs) = utf8_valid bs"
  by (simp add: utf8_valid_step utf8_next_ascii)

lemma alnum_ascii: "is_alnum c \<Longrightarrow> (of_char c :: nat) < 128"
  by (auto simp: is_alnum_def Let_def)

lemma utf8_valid_alnum_prefix: "\<forall>c\<in>set a. is_alnum c \<Longrightarrow> utf8_valid (a @ r) = utf8_valid r"
  by (induction a) (simp_all add: utf8_valid_ascii alnum_ascii)

lemma utf8_next_append: "utf8_next x = Some r \<Longrightarrow> utf8_next (x @ y) = Some (r @ y)"
  by (cases x) (auto simp: utf8_next.simps Let_def split: if_splits list.splits)

lemma utf8_next_two:
  assumes "194 \<le> (of_char b :: nat)" and "(of_char b :: nat) \<le> 223"
  shows "utf8_next (b # bs) =
    (case bs of c1 # r \<Rightarrow> if between 128 191 c1 then Some r else None | _ \<Rightarrow> None)"
  using assms by (simp add: utf8_next.simps Let_def)

lemma utf8_next_three:
  assumes "224 \<le> (of_char b :: nat)" and "(of_char b :: nat) \<le> 239"
  shows "utf8_next (b # bs) =
    (case bs of
       c1 # c2 # r \<Rightarrow>
         if between (if (of_char b :: nat) = 224 then 160 else 128)
              (if (of_char b :: nat) = 237 then 159 else 191) c1 \<and> between 128 191 c2
         then Some r else None
     | _ \<Rightarrow> None)"
  using assms by (simp add: utf8_next.simps Let_def)

lemma utf8_next_four:
  assumes "240 \<le> (of_char b :: nat)" and "(of_char b :: nat) \<le> 244"
  shows "utf8_next (b # bs) =
    (case bs of
       c1 # c2 # c3 # r \<Rightarrow>
         if between (if (of_char b :: nat) = 240 then 144 else 128)
              (if (of_char b :: nat) = 244 then 143 else 191) c1 \<and> between 128 191 c2 \<and>
            between 128 191 c3
         then Some r else None
     | _ \<Rightarrow> None)"
  using assms by (simp add: utf8_next.simps Let_def)

lemma utf8_next_other:
  assumes "128 \<le> (of_char b :: nat)"
    and "(of_char b :: nat) < 194 \<or> 244 < (of_char b :: nat)"
  shows "utf8_next (b # bs) = None"
  using assms by (auto simp: utf8_next.simps Let_def)

lemma not_between_ascii: "(of_char c :: nat) < 128 \<Longrightarrow> 128 \<le> lo \<Longrightarrow> \<not> between lo hi c"
  by (simp add: between_def)

lemma utf8_next_before_ascii:
  assumes n: "utf8_next (x @ c # y) = Some r" and "x \<noteq> []" and c: "(of_char c :: nat) < 128"
  shows "\<exists>r'. utf8_next x = Some r' \<and> r = r' @ c # y"
proof -
  from assms(2) obtain b bs where x: "x = b # bs" by (cases x) auto
  have nb: "\<not> between 128 191 c" "\<not> between 160 191 c" "\<not> between 128 159 c"
    "\<not> between 144 191 c" "\<not> between 128 143 c" "\<not> between 160 159 c" "\<not> between 144 143 c"
    using c by (simp_all add: between_def)
  have nb2: "\<And>P hi. \<not> between (if P then 160 else 128) hi c"
    "\<And>P hi. \<not> between (if P then 144 else 128) hi c"
    using c by (simp_all add: between_def)
  consider "(of_char b :: nat) < 128"
    | "194 \<le> (of_char b :: nat)" "(of_char b :: nat) \<le> 223"
    | "224 \<le> (of_char b :: nat)" "(of_char b :: nat) \<le> 239"
    | "240 \<le> (of_char b :: nat)" "(of_char b :: nat) \<le> 244"
    | "128 \<le> (of_char b :: nat)" "(of_char b :: nat) < 194 \<or> 244 < (of_char b :: nat)"
    by linarith
  then show ?thesis
  proof cases
    case 1
    with n x show ?thesis by (simp add: utf8_next_ascii)
  next
    case 2
    note e = utf8_next_two [OF 2]
    show ?thesis
    proof (cases bs)
      case Nil
      with n x nb nb2 show ?thesis by (simp add: e split: list.splits if_splits)
    next
      case (Cons c1 bs')
      with n x nb nb2 show ?thesis by (simp add: e split: list.splits if_splits)
    qed
  next
    case 3
    note e = utf8_next_three [OF 3]
    consider "bs = []" | c1 where "bs = [c1]" | c1 c2 bs' where "bs = c1 # c2 # bs'"
      by (metis list.exhaust)
    then show ?thesis
    proof cases
      case 1
      with n x nb nb2 show ?thesis by (simp add: e split: list.splits if_splits)
    next
      case 2
      with n x nb nb2 show ?thesis by (simp add: e split: list.splits if_splits)
    next
      case 3
      with n x nb nb2 show ?thesis by (simp add: e split: list.splits if_splits)
    qed
  next
    case 4
    note e = utf8_next_four [OF 4]
    consider "bs = []" | c1 where "bs = [c1]" | c1 c2 where "bs = [c1, c2]"
      | c1 c2 c3 bs' where "bs = c1 # c2 # c3 # bs'"
      by (metis list.exhaust)
    then show ?thesis
    proof cases
      case 1
      with n x nb nb2 show ?thesis by (simp add: e split: list.splits if_splits)
    next
      case 2
      with n x nb nb2 show ?thesis by (simp add: e split: list.splits if_splits)
    next
      case 3
      with n x nb nb2 show ?thesis by (simp add: e split: list.splits if_splits)
    next
      case 4
      with n x nb nb2 show ?thesis by (simp add: e split: list.splits if_splits)
    qed
  next
    case 5
    with n x show ?thesis by (simp add: utf8_next_other)
  qed
qed

lemma utf8_valid_before_ascii:
  "utf8_valid (x @ c # y) \<Longrightarrow> (of_char c :: nat) < 128 \<Longrightarrow> utf8_valid x \<and> utf8_valid (c # y)"
proof (induction x rule: length_induct)
  case (1 x)
  show ?case
  proof (cases "x = []")
    case True
    with "1.prems" show ?thesis by simp
  next
    case False
    from "1.prems"(1) obtain r where n: "utf8_next (x @ c # y) = Some r" and v: "utf8_valid r"
      by (subst (asm) utf8_valid_step) (auto split: option.splits)
    from utf8_next_before_ascii [OF n False "1.prems"(2)] obtain r' where
      n': "utf8_next x = Some r'" and r: "r = r' @ c # y" by blast
    from utf8_next_length [OF n'] have "length r' < length x" .
    with "1.IH" v r "1.prems"(2) have "utf8_valid r' \<and> utf8_valid (c # y)" by blast
    with n' False show ?thesis by (simp add: utf8_valid_step)
  qed
qed

lemma utf8_valid_run:
  assumes "utf8_valid r"
  shows "utf8_valid (takeWhile (\<lambda>c. \<not> is_alnum c) r) \<and> utf8_valid (dropWhile (\<lambda>c. \<not> is_alnum c) r)"
proof (cases "dropWhile (\<lambda>c. \<not> is_alnum c) r")
  case Nil
  then have "takeWhile (\<lambda>c. \<not> is_alnum c) r = r"
    by (metis append_Nil2 takeWhile_dropWhile_id)
  then have "utf8_valid (takeWhile (\<lambda>c. \<not> is_alnum c) r)" using assms by (simp only:)
  moreover have "utf8_valid (dropWhile (\<lambda>c. \<not> is_alnum c) r)" by (simp only: Nil utf8_valid_Nil)
  ultimately show ?thesis by blast
next
  case (Cons c y)
  then have "is_alnum c" using hd_dropWhile [of "\<lambda>c. \<not> is_alnum c" r] by auto
  then have a: "(of_char c :: nat) < 128" by (rule alnum_ascii)
  have "r = takeWhile (\<lambda>c. \<not> is_alnum c) r @ c # y"
    using Cons takeWhile_dropWhile_id [of "\<lambda>c. \<not> is_alnum c" r] by simp
  with assms have "utf8_valid (takeWhile (\<lambda>c. \<not> is_alnum c) r @ c # y)" by simp
  from utf8_valid_before_ascii [OF this a] Cons show ?thesis by simp
qed

lemma utf8_valid_parts:
  assumes "utf8_valid s"
  shows "utf8_valid (takeWhile (\<lambda>c. \<not> is_alnum c) (dropWhile is_alnum s)) \<and>
    utf8_valid (dropWhile (\<lambda>c. \<not> is_alnum c) (dropWhile is_alnum s))"
proof -
  have "\<forall>c\<in>set (takeWhile is_alnum s). is_alnum c" by (auto dest: set_takeWhileD)
  from utf8_valid_alnum_prefix [OF this, of "dropWhile is_alnum s"] assms
  have "utf8_valid (dropWhile is_alnum s)" by simp
  then show ?thesis by (rule utf8_valid_run)
qed

declare read_chunk.simps [simp del]

lemma base_sym_nonempty: "s < 64 \<Longrightarrow> BASE_LIST ! s \<noteq> []"
  using sym_ok [of s] by (auto simp: sym_ok_def)

lemma chunk_syms_length: "Suc nb \<le> length (chunk_syms n nb)"
proof -
  have "length js \<le> length (concat (map (\<lambda>j. BASE_LIST ! sym_at n j) js))" for js
  proof (induction js)
    case Nil
    then show ?case by simp
  next
    case (Cons j js)
    from base_sym_nonempty [OF sym_at_less, of n j]
    have "1 \<le> length (BASE_LIST ! sym_at n j)" by (cases "BASE_LIST ! sym_at n j") auto
    with Cons show ?case by simp
  qed
  from this [of "[0..<nb + 1]"] show ?thesis by (simp add: chunk_syms_eq)
qed

lemma quote_loop_Nil: "p \<le> 3 \<Longrightarrow> quote_loop [] p = [CHR ''_'', digit_char p]"
  by (simp add: quote_loop.simps str_small)

lemma quote_loop_1: "quote_loop [a] p = chunk_syms (chunk_int [of_char a]) 1 @ [CHR ''_'', digit_char 1]"
  by (subst quote_loop.simps) (simp add: quote_loop_Nil)

lemma quote_loop_2:
  "quote_loop [a, b] p = chunk_syms (chunk_int [of_char a, of_char b]) 2 @ [CHR ''_'', digit_char 2]"
  by (subst quote_loop.simps) (simp add: quote_loop_Nil numeral_2_eq_2)

lemma quote_loop_3:
  "quote_loop (a # b # c # bs) p =
     chunk_syms (chunk_int [of_char a, of_char b, of_char c]) 3 @ quote_loop bs 3"
  by (subst quote_loop.simps) (simp add: numeral_3_eq_3)

lemma unquote_loop_step:
  assumes "rest \<noteq> []"
  shows "unquote_loop seen rest raw =
    (case read_chunk (min (length rest) 4) 0 seen rest 0 of
       Inl e \<Rightarrow> Inl e
     | Inr (n, tai, seen', rest') \<Rightarrow>
         (case tai of
            Some nbytes \<Rightarrow> Inr (raw @ chunk_bytes n nbytes, seen', rest')
          | None \<Rightarrow> unquote_loop seen' rest' (raw @ chunk_bytes n 3)))"
  using assms by (subst unquote_loop.simps) simp

lemma unquote_loop_quote:
  "(bs = [] \<longrightarrow> p = 3) \<Longrightarrow> p \<le> 3 \<Longrightarrow>
   unquote_loop seen (quote_loop bs p @ rest) raw = Inr (raw @ bs, seen @ quote_loop bs p, rest)"
proof (induction bs arbitrary: seen raw p rule: length_induct)
  case (1 bs)
  consider "bs = []" | a where "bs = [a]" | a b where "bs = [a, b]"
    | a b c bs' where "bs = a # b # c # bs'"
    by (metis list.exhaust)
  then show ?case
  proof cases
    case 1
    with "1.prems" have p: "p = 3" by simp
    obtain k where k: "min (length (CHR ''_'' # digit_char 3 # rest)) 4 = Suc k"
      by (cases "min (length (CHR ''_'' # digit_char 3 # rest)) 4") auto
    have rc: "read_chunk (min (length (CHR ''_'' # digit_char 3 # rest)) 4) 0 seen
        (CHR ''_'' # digit_char 3 # rest) 0 = Inr (0, Some 0, seen @ [CHR ''_'', digit_char 3], rest)"
      unfolding k by (simp add: read_tail)
    have "unquote_loop seen (CHR ''_'' # digit_char 3 # rest) raw =
        Inr (raw, seen @ [CHR ''_'', digit_char 3], rest)"
      by (subst unquote_loop_step) (simp_all only: rc, simp_all add: chunk_bytes_def)
    then show ?thesis by (simp add: 1 p quote_loop_Nil)
  next
    case 2
    let ?n = "chunk_int [of_char a]"
    let ?tail = "CHR ''_'' # digit_char 1 # rest"
    let ?src = "chunk_syms ?n 1 @ ?tail"
    have l: "min (length ?src) 4 = 4"
      using chunk_syms_length [of 1 ?n] by simp
    have ne: "?src \<noteq> []" by simp
    have "read_chunk 4 0 seen ?src 0 = read_chunk (Suc 1 + 2) 0 seen ?src 0"
      by (simp add: numeral_eq_Suc)
    also have "\<dots> = read_chunk 2 (Suc 1) (seen @ chunk_syms ?n 1) ?tail (dec_int ?n (Suc 1))"
      by (rule read_chunk_syms)
    also have "\<dots> = Inr (dec_int ?n 2, Some 1, seen @ chunk_syms ?n 1 @ [CHR ''_'', digit_char 1], rest)"
      using read_tail [of 1 1 "Suc 1" "seen @ chunk_syms ?n 1" rest "dec_int ?n (Suc 1)"]
      by (simp add: numeral_eq_Suc)
    finally have rc: "read_chunk 4 0 seen ?src 0 =
        Inr (dec_int ?n 2, Some 1, seen @ chunk_syms ?n 1 @ [CHR ''_'', digit_char 1], rest)" .
    have "unquote_loop seen ?src raw =
        Inr (raw @ [a], seen @ chunk_syms ?n 1 @ [CHR ''_'', digit_char 1], rest)"
      using chunk_roundtrip1 [of a]
      by (subst unquote_loop_step [OF ne]) (simp only: l rc, simp)
    then show ?thesis by (simp add: 2 quote_loop_1)
  next
    case 3
    let ?n = "chunk_int [of_char a, of_char b]"
    let ?tail = "CHR ''_'' # digit_char 2 # rest"
    let ?src = "chunk_syms ?n 2 @ ?tail"
    have l: "min (length ?src) 4 = 4"
      using chunk_syms_length [of 2 ?n] by simp
    have ne: "?src \<noteq> []" by simp
    have "read_chunk 4 0 seen ?src 0 = read_chunk (Suc 2 + 1) 0 seen ?src 0"
      by (simp add: numeral_eq_Suc)
    also have "\<dots> = read_chunk 1 (Suc 2) (seen @ chunk_syms ?n 2) ?tail (dec_int ?n (Suc 2))"
      by (rule read_chunk_syms)
    also have "\<dots> = Inr (dec_int ?n 3, Some 2, seen @ chunk_syms ?n 2 @ [CHR ''_'', digit_char 2], rest)"
      using read_tail [of 2 0 "Suc 2" "seen @ chunk_syms ?n 2" rest "dec_int ?n (Suc 2)"]
      by (simp add: numeral_eq_Suc)
    finally have rc: "read_chunk 4 0 seen ?src 0 =
        Inr (dec_int ?n 3, Some 2, seen @ chunk_syms ?n 2 @ [CHR ''_'', digit_char 2], rest)" .
    have "unquote_loop seen ?src raw =
        Inr (raw @ [a, b], seen @ chunk_syms ?n 2 @ [CHR ''_'', digit_char 2], rest)"
      using chunk_roundtrip2 [of a b]
      by (subst unquote_loop_step [OF ne]) (simp only: l rc, simp)
    then show ?thesis by (simp add: 3 quote_loop_2)
  next
    case 4
    let ?n = "chunk_int [of_char a, of_char b, of_char c]"
    let ?more = "quote_loop bs' 3 @ rest"
    let ?src = "chunk_syms ?n 3 @ ?more"
    have l: "min (length ?src) 4 = 4"
      using chunk_syms_length [of 3 ?n] by simp
    have ne: "?src \<noteq> []" using chunk_syms_length [of 3 ?n] by auto
    have "read_chunk 4 0 seen ?src 0 = read_chunk (Suc 3 + 0) 0 seen ?src 0"
      by (simp add: numeral_eq_Suc)
    also have "\<dots> = read_chunk 0 (Suc 3) (seen @ chunk_syms ?n 3) ?more (dec_int ?n (Suc 3))"
      by (rule read_chunk_syms)
    also have "\<dots> = Inr (dec_int ?n 4, None, seen @ chunk_syms ?n 3, ?more)"
      by (simp add: read_chunk.simps numeral_eq_Suc)
    finally have rc: "read_chunk 4 0 seen ?src 0 =
        Inr (dec_int ?n 4, None, seen @ chunk_syms ?n 3, ?more)" .
    have ih: "unquote_loop (seen @ chunk_syms ?n 3) ?more (raw @ [a, b, c]) =
        Inr ((raw @ [a, b, c]) @ bs', (seen @ chunk_syms ?n 3) @ quote_loop bs' 3, rest)"
      using "1.IH" 4 by simp
    have "unquote_loop seen ?src raw =
        Inr (raw @ a # b # c # bs', seen @ chunk_syms ?n 3 @ quote_loop bs' 3, rest)"
      using chunk_roundtrip3 [of a b c] ih
      by (subst unquote_loop_step [OF ne]) (simp only: l rc, simp)
    then show ?thesis by (simp add: 4 quote_loop_3)
  qed
qed

lemma quote_loop_end:
  "p \<le> 3 \<Longrightarrow> \<exists>xs t. quote_loop bs p = xs @ [CHR ''_'', digit_char t] \<and> t \<le> 3"
proof (induction bs p rule: quote_loop.induct)
  case (1 chars nbytes)
  show ?case
  proof (cases "chars = []")
    case True
    with "1.prems" show ?thesis by (auto simp: quote_loop_Nil)
  next
    case False
    define nb where "nb = min (length chars) 3"
    have "nb \<le> 3" by (simp add: nb_def)
    from "1.IH" [OF False nb_def refl this] obtain xs t where
      "quote_loop (drop nb chars) nb = xs @ [CHR ''_'', digit_char t]" and "t \<le> 3"
      by blast
    with False show ?thesis
      by (subst quote_loop.simps) (auto simp: Let_def nb_def intro: exI [of _ "_ @ xs"])
  qed
qed

lemma unquote_quote:
  assumes "r \<noteq> []" and "utf8_valid r"
  shows "unquote (quoted r @ rest) = Inr (r, rest)"
proof -
  from quote_loop_end [of 0 r] obtain xs t where
    e: "quote_loop r 0 = xs @ [CHR ''_'', digit_char t]" and t: "t \<le> 3"
    by auto
  have "unquote_loop ''_Q'' (quote_loop r 0 @ rest) [] = Inr (r, ''_Q'' @ quote_loop r 0, rest)"
    using unquote_loop_quote [of r 0 "''_Q''" rest "[]"] assms by simp
  then show ?thesis
    using tail_len_digit [OF t] assms(2) by (simp add: unquote_def quoted_def e)
qed

lemma find_Q_alnum:
  "\<forall>c\<in>set a. is_alnum c \<Longrightarrow> find_Q (a @ CHR ''_'' # CHR ''Q'' # rest) = Some (a, CHR ''_'' # CHR ''Q'' # rest)"
  by (induction a) (auto simp: not_alnum_underscore)

lemma find_Q_none: "\<forall>c\<in>set a. is_alnum c \<Longrightarrow> find_Q a = None"
  by (induction a) (auto simp: not_alnum_underscore)

lemma quote_Q: "quoted r = CHR ''_'' # CHR ''Q'' # quote_loop r 0"
  by (simp add: quoted_def)

lemma quote_parts_plain: "dropWhile is_alnum s = [] \<Longrightarrow> quoted_parts s = s"
  by (subst quoted_parts.simps) (simp add: Let_def)

lemma quote_parts_step:
  assumes "dropWhile is_alnum s \<noteq> []"
  shows "quoted_parts s = takeWhile is_alnum s @ quoted (takeWhile (\<lambda>c. \<not> is_alnum c) (dropWhile is_alnum s))
     @ quoted_parts (dropWhile (\<lambda>c. \<not> is_alnum c) (dropWhile is_alnum s))"
proof -
  have "quoted_parts s =
     (let a = takeWhile is_alnum s; r = dropWhile is_alnum s
      in if r = [] then a
         else a @ quoted (takeWhile (\<lambda>c. \<not> is_alnum c) r)
                @ quoted_parts (dropWhile (\<lambda>c. \<not> is_alnum c) r))"
    by (rule quoted_parts.simps)
  also have "\<dots> = takeWhile is_alnum s @ quoted (takeWhile (\<lambda>c. \<not> is_alnum c) (dropWhile is_alnum s))
     @ quoted_parts (dropWhile (\<lambda>c. \<not> is_alnum c) (dropWhile is_alnum s))"
    unfolding Let_def using assms by (simp only: if_False)
  finally show ?thesis .
qed

lemma unquote_all_none: "find_Q s = None \<Longrightarrow> unquote_all s = Inr s"
  by (subst unquote_all.simps) simp

lemma unquote_all_some:
  "find_Q s = Some (pre, q) \<Longrightarrow> unquote q = Inr (raw, rest) \<Longrightarrow> unquote_all rest = Inr t \<Longrightarrow>
   unquote_all s = Inr (pre @ raw @ t)"
  by (subst unquote_all.simps) simp

lemma unquote_all_quote_parts: "utf8_valid s \<Longrightarrow> unquote_all (quoted_parts s) = Inr s"
proof (induction s rule: quoted_parts.induct)
  case (1 s)
  define a where "a = takeWhile is_alnum s"
  define r where "r = dropWhile is_alnum s"
  have al: "\<forall>c\<in>set a. is_alnum c" by (auto simp: a_def dest: set_takeWhileD)
  have s: "s = a @ r" by (simp add: a_def r_def)
  show ?case
  proof (cases "r = []")
    case True
    then have "quoted_parts s = s" unfolding r_def by (rule quote_parts_plain)
    moreover from True s have "s = a" by simp
    ultimately show ?thesis
      using find_Q_none [OF al] unquote_all_none [of a] by simp
  next
    case False
    define r1 where "r1 = takeWhile (\<lambda>c. \<not> is_alnum c) r"
    define s2 where "s2 = dropWhile (\<lambda>c. \<not> is_alnum c) r"
    have r: "r = r1 @ s2" by (simp add: r1_def s2_def)
    from utf8_valid_parts [OF "1.prems"] have v1: "utf8_valid r1" and v2: "utf8_valid s2"
      by (simp_all add: r1_def s2_def r_def)
    from False have "\<not> is_alnum (hd r)" unfolding r_def using hd_dropWhile by metis
    with False have r1: "r1 \<noteq> []" by (cases r) (auto simp: r1_def)
    have qp: "quoted_parts s = a @ quoted r1 @ quoted_parts s2"
      using quote_parts_step [of s] False unfolding a_def r_def r1_def s2_def by blast
    have ih: "unquote_all (quoted_parts s2) = Inr s2"
      using "1.IH" [OF a_def r_def False] v2 by (simp only: s2_def)
    have f: "find_Q (quoted_parts s) = Some (a, quoted r1 @ quoted_parts s2)"
      unfolding qp using find_Q_alnum [OF al, of "quote_loop r1 0 @ quoted_parts s2"]
      by (simp only: quote_Q append_Cons)
    have "unquote_all (quoted_parts s) = Inr (a @ r1 @ s2)"
      by (rule unquote_all_some [OF f unquote_quote [OF r1 v1] ih])
    then show ?thesis by (simp only: s r)
  qed
qed

lemma quote_parts_pure: "utf8_valid s \<Longrightarrow> quote_parts s = Inr (quoted_parts s)"
proof (induction s rule: quoted_parts.induct)
  case (1 s)
  show ?case
  proof (cases "dropWhile is_alnum s = []")
    case True
    then show ?thesis
      by (subst quote_parts.simps) (simp add: Let_def quote_parts_plain)
  next
    case False
    from utf8_valid_parts [OF "1.prems"]
    have v1: "utf8_valid (takeWhile (\<lambda>c. \<not> is_alnum c) (dropWhile is_alnum s))"
      and v2: "utf8_valid (dropWhile (\<lambda>c. \<not> is_alnum c) (dropWhile is_alnum s))"
      by simp_all
    have ih: "quote_parts (dropWhile (\<lambda>c. \<not> is_alnum c) (dropWhile is_alnum s)) =
        Inr (quoted_parts (dropWhile (\<lambda>c. \<not> is_alnum c) (dropWhile is_alnum s)))"
      using "1.IH" [OF refl refl False] v2 by simp
    have "quote_parts s =
     (let a = takeWhile is_alnum s; r = dropWhile is_alnum s
      in if r = [] then Inr a
         else
           (case quote (takeWhile (\<lambda>c. \<not> is_alnum c) r) of
              Inl e \<Rightarrow> Inl e
            | Inr q \<Rightarrow>
                (case quote_parts (dropWhile (\<lambda>c. \<not> is_alnum c) r) of
                   Inl e \<Rightarrow> Inl e
                 | Inr t \<Rightarrow> Inr (a @ q @ t))))"
      by (rule quote_parts.simps)
    also have "\<dots> = Inr (takeWhile is_alnum s @
        quoted (takeWhile (\<lambda>c. \<not> is_alnum c) (dropWhile is_alnum s)) @
        quoted_parts (dropWhile (\<lambda>c. \<not> is_alnum c) (dropWhile is_alnum s)))"
      unfolding Let_def ih using False v1 by (simp add: quote_def quoted_def)
    also have "\<dots> = Inr (quoted_parts s)"
      by (simp only: quote_parts_step [OF False])
    finally show ?thesis .
  qed
qed

lemma quote_parts_Inr: "quote_parts s = Inr e \<Longrightarrow> e = quoted_parts s"
proof (induction s arbitrary: e rule: quoted_parts.induct)
  case (1 s)
  show ?case
  proof (cases "dropWhile is_alnum s = []")
    case True
    then have ts: "takeWhile is_alnum s = s"
      by (metis append_Nil2 takeWhile_dropWhile_id)
    from "1.prems" True show ?thesis
      by (subst (asm) quote_parts.simps) (simp add: Let_def quote_parts_plain ts)
  next
    case False
    have eq: "quote_parts s =
       (case quote (takeWhile (\<lambda>c. \<not> is_alnum c) (dropWhile is_alnum s)) of
          Inl e \<Rightarrow> Inl e
        | Inr q \<Rightarrow>
            (case quote_parts (dropWhile (\<lambda>c. \<not> is_alnum c) (dropWhile is_alnum s)) of
               Inl e \<Rightarrow> Inl e
             | Inr t \<Rightarrow> Inr (takeWhile is_alnum s @ q @ t)))"
    proof -
      have "quote_parts s =
       (let a = takeWhile is_alnum s; r = dropWhile is_alnum s
        in if r = [] then Inr a
           else
             (case quote (takeWhile (\<lambda>c. \<not> is_alnum c) r) of
                Inl e \<Rightarrow> Inl e
              | Inr q \<Rightarrow>
                  (case quote_parts (dropWhile (\<lambda>c. \<not> is_alnum c) r) of
                     Inl e \<Rightarrow> Inl e
                   | Inr t \<Rightarrow> Inr (a @ q @ t))))"
        by (rule quote_parts.simps)
      then show ?thesis unfolding Let_def using False by (simp only: if_False)
    qed
    from "1.prems" obtain q t where
      q: "quote (takeWhile (\<lambda>c. \<not> is_alnum c) (dropWhile is_alnum s)) = Inr q"
      and t: "quote_parts (dropWhile (\<lambda>c. \<not> is_alnum c) (dropWhile is_alnum s)) = Inr t"
      and e: "e = takeWhile is_alnum s @ q @ t"
      unfolding eq by (auto split: sum.splits)
    from q have q': "q = quoted (takeWhile (\<lambda>c. \<not> is_alnum c) (dropWhile is_alnum s))"
      by (auto simp: quote_def quoted_def split: if_splits)
    from "1.IH" [OF refl refl False t]
    have t': "t = quoted_parts (dropWhile (\<lambda>c. \<not> is_alnum c) (dropWhile is_alnum s))" .
    show ?thesis unfolding e q' t' by (simp only: quote_parts_step [OF False])
  qed
qed

lemma quote_parts_head:
  assumes ne: "s \<noteq> []"
  shows "\<exists>c cs. quoted_parts s = c # cs \<and> (is_alnum c \<or> (c = CHR ''_'' \<and> take 1 cs = ''Q''))"
proof (cases "dropWhile is_alnum s = []")
  case True
  then have "\<forall>c\<in>set s. is_alnum c" by (metis dropWhile_eq_Nil_conv)
  with ne quote_parts_plain [OF True] show ?thesis by (cases s) auto
next
  case False
  note st = quote_parts_step [OF False]
  show ?thesis
  proof (cases "takeWhile is_alnum s")
    case Nil
    with st show ?thesis by (simp add: quote_Q)
  next
    case (Cons c cs)
    then have "c \<in> set (takeWhile is_alnum s)" by simp
    then have "is_alnum c" by (rule set_takeWhileD [THEN conjunct2])
    with st Cons show ?thesis by simp
  qed
qed

lemma reserved_underscores:
  assumes "take 2 unnamed = ''__''" and "reserved unnamed s"
  shows "take 2 s = ''__''"
proof -
  from assms(2) consider "startswith s IDX_COL_NAME" | "s = unnamed" | "s = ROWID_COL_NAME"
    by (auto simp: reserved_def RESERVED_NAMES_def)
  then show ?thesis
  proof cases
    case 1
    then have e: "take (length IDX_COL_NAME) s = IDX_COL_NAME" by (simp add: startswith_def)
    have "take 2 s = take 2 (take (length IDX_COL_NAME) s)"
      by (simp add: IDX_COL_NAME_def numeral_2_eq_2)
    also have "\<dots> = take 2 IDX_COL_NAME" by (simp only: e)
    also have "\<dots> = ''__''" by (simp add: IDX_COL_NAME_def)
    finally show ?thesis .
  next
    case 2
    with assms(1) show ?thesis by simp
  next
    case 3
    then show ?thesis by (simp add: ROWID_COL_NAME_def)
  qed
qed

lemma not_reserved_head:
  assumes "take 2 unnamed = ''__''" and "c \<noteq> CHR ''_''"
  shows "\<not> (startswith (CHR ''_'' # c # cs) IDX_COL_NAME \<or>
    CHR ''_'' # c # cs \<in> set (RESERVED_NAMES unnamed))"
proof
  assume "startswith (CHR ''_'' # c # cs) IDX_COL_NAME \<or> CHR ''_'' # c # cs \<in> set (RESERVED_NAMES unnamed)"
  then have "reserved unnamed (CHR ''_'' # c # cs)" by (simp add: reserved_def)
  from reserved_underscores [OF assms(1) this] assms(2) show False by simp
qed

lemma startswith_underscore [simp]: "startswith (c # cs) ''_'' \<longleftrightarrow> c = CHR ''_''"
  by (simp add: startswith_def)

lemma startswith_underscore_Nil [simp]: "\<not> startswith [] ''_''"
  by (simp add: startswith_def)

lemma decode_plain:
  "\<not> startswith name ''_'' \<Longrightarrow> decode_col_name lib unnamed name = map_sum id NStr (unquote_all name)"
  by (subst decode_col_name.simps) simp

lemma decode_reserved:
  "startswith name ''_'' \<Longrightarrow> reserved unnamed name \<Longrightarrow> decode_col_name lib unnamed name = Inr (NStr name)"
  by (subst decode_col_name.simps) (simp add: reserved_def)

lemma decode_tag:
  assumes "take 2 unnamed = ''__''" and "c \<noteq> CHR ''_''"
  shows "decode_col_name lib unnamed (CHR ''_'' # c # cs) =
    (if c = CHR ''N'' then Inr NNone
     else if c = CHR ''I'' then map_sum id NInt (int_of_str lib cs)
     else if c = CHR ''F'' then map_sum id NFloat (float_of_str lib cs)
     else if c = CHR ''D'' then
       (case decode_col_name lib unnamed cs of
          Inl e \<Rightarrow> Inl e
        | Inr stamp \<Rightarrow>
            (case getitem stamp 0 of
               Inl e \<Rightarrow> Inl e
             | Inr a \<Rightarrow>
                 (case getitem stamp 1 of
                    Inl e \<Rightarrow> Inl e
                  | Inr b \<Rightarrow> map_sum id NStamp (fromtimestamp lib a b))))
     else if c = CHR ''T'' then
       (case collect (map (decode_col_name lib unnamed) (split_S cs)) of
          Inl e \<Rightarrow> Inl e
        | Inr ns \<Rightarrow> Inr (NTuple ns))
     else if c = CHR ''E'' then Inr (NStr [])
     else map_sum id NStr (unquote_all (CHR ''_'' # c # cs)))"
  using not_reserved_head [OF assms, of cs]
  by (subst decode_col_name.simps) (simp del: decode_col_name.simps)

lemma encode_str_cases:
  "encode_col_name lib unnamed (NStr s) True =
     (if s = [] then Inr ''_E'' else if reserved unnamed s then Inr s
      else if dropWhile is_alnum s = [] then Inr s else quote_parts s)"
  by (simp add: reserved_def)

lemma decode_quoted_parts:
  assumes u: "take 2 unnamed = ''__''" and ne: "s \<noteq> []" and v: "utf8_valid s"
  shows "decode_col_name lib unnamed (quoted_parts s) = Inr (NStr s)"
proof -
  from quote_parts_head [OF ne] obtain c cs where
    q: "quoted_parts s = c # cs" and h: "is_alnum c \<or> (c = CHR ''_'' \<and> take 1 cs = ''Q'')"
    by blast
  show ?thesis
  proof (cases "c = CHR ''_''")
    case True
    with h obtain cs' where cs: "cs = CHR ''Q'' # cs'"
      by (cases cs) (auto simp: not_alnum_underscore)
    have "decode_col_name lib unnamed (CHR ''_'' # CHR ''Q'' # cs') =
        map_sum id NStr (unquote_all (CHR ''_'' # CHR ''Q'' # cs'))"
      by (subst decode_tag [OF u]) simp_all
    with unquote_all_quote_parts [OF v]
    show ?thesis by (simp add: q cs True)
  next
    case False
    then have "\<not> startswith (quoted_parts s) ''_''"
      by (simp add: q)
    from decode_plain [OF this]
    show ?thesis by (simp add: unquote_all_quote_parts [OF v])
  qed
qed

lemma decode_str:
  assumes u: "take 2 unnamed = ''__''" and v: "utf8_valid s"
  shows "\<exists>e. encode_col_name lib unnamed (NStr s) True = Inr e \<and>
    decode_col_name lib unnamed e = Inr (NStr s)"
proof (cases "s = []")
  case True
  have "decode_col_name lib unnamed (CHR ''_'' # CHR ''E'' # []) = Inr (NStr [])"
    by (subst decode_tag [OF u]) simp_all
  with True show ?thesis by simp
next
  case ne: False
  show ?thesis
  proof (cases "reserved unnamed s")
    case True
    from reserved_underscores [OF u True] have "startswith s ''_''"
      by (cases s) auto
    from decode_reserved [OF this True] True ne show ?thesis
      by (simp add: encode_str_cases del: encode_col_name.simps)
  next
    case nr: False
    show ?thesis
    proof (cases "dropWhile is_alnum s = []")
      case True
      then have al: "\<forall>c\<in>set s. is_alnum c"
        by (metis dropWhile_eq_Nil_conv)
      with ne have "\<not> startswith s ''_''"
        by (cases s) (auto simp: not_alnum_underscore)
      from decode_plain [OF this] unquote_all_none [OF find_Q_none [OF al]]
      show ?thesis
        using ne nr True by (simp add: encode_str_cases del: encode_col_name.simps)
    next
      case False
      with ne nr have "encode_col_name lib unnamed (NStr s) True = quote_parts s"
        by (simp add: encode_str_cases del: encode_col_name.simps dropWhile_eq_Nil_conv)
      then have enc: "encode_col_name lib unnamed (NStr s) True = Inr (quoted_parts s)"
        by (simp only: quote_parts_pure [OF v])
      from decode_quoted_parts [OF u ne v] enc show ?thesis by blast
    qed
  qed
qed

lemma of_char_digit: "d < 10 \<Longrightarrow> (of_char (digit_char d) :: nat) = 48 + d"
  by (simp add: digit_char_def)

lemma digit_val_digit_char: "d < 10 \<Longrightarrow> digit_val (digit_char d) = Some d"
  by (simp add: digit_val_def of_char_digit)

lemma minus_code: "(of_char CHR ''-'' :: nat) = 45"
  by simp

lemma digit_char_not_minus: "d < 10 \<Longrightarrow> digit_char d \<noteq> CHR ''-''"
proof
  assume "d < 10" and "digit_char d = CHR ''-''"
  then have "(of_char (digit_char d) :: nat) = of_char CHR ''-''" by simp
  with \<open>d < 10\<close> show False by (simp add: of_char_digit)
qed

lemma nat_of_digits_snoc:
  "d < 10 \<Longrightarrow> nat_of_digits acc (xs @ [digit_char d]) =
     map_option (\<lambda>m. 10 * m + d) (nat_of_digits acc xs)"
  by (induction xs arbitrary: acc) (auto simp: digit_val_digit_char split: option.splits)

lemma nat_of_digits_str_nat: "nat_of_digits 0 (str_nat n) = Some n"
proof (induction n rule: str_nat.induct)
  case (1 n)
  show ?case
  proof (cases "n < 10")
    case True
    then show ?thesis by (subst str_nat.simps) (simp add: digit_val_digit_char)
  next
    case False
    have "str_nat n = str_nat (n div 10) @ [digit_char (n mod 10)]"
      using False by (subst str_nat.simps) simp
    with "1.IH" [OF False] show ?thesis
      by (simp add: nat_of_digits_snoc)
  qed
qed

lemma str_nat_digits: "\<forall>c\<in>set (str_nat n). \<exists>d<10. c = digit_char d"
proof (induction n rule: str_nat.induct)
  case (1 n)
  show ?case
  proof (cases "n < 10")
    case True
    then show ?thesis by (subst str_nat.simps) auto
  next
    case False
    have "str_nat n = str_nat (n div 10) @ [digit_char (n mod 10)]"
      using False by (subst str_nat.simps) simp
    moreover have "\<exists>d<10. digit_char (n mod 10) = digit_char d"
      by (rule exI [of _ "n mod 10"]) simp
    ultimately show ?thesis using "1.IH" [OF False] by auto
  qed
qed

lemma str_nat_nonempty: "str_nat n \<noteq> []"
  by (subst str_nat.simps) simp

lemma decimal_int_str_int: "decimal_int (str_int i) = Some i"
proof (cases "i < 0")
  case True
  then show ?thesis
    by (simp add: str_int_def decimal_int_def str_nat_nonempty nat_of_digits_str_nat)
next
  case False
  obtain c cs where s: "str_nat (nat i) = c # cs"
    using str_nat_nonempty [of "nat i"] by (cases "str_nat (nat i)") auto
  with str_nat_digits [of "nat i"] have "c \<noteq> CHR ''-''"
    by (auto simp: digit_char_not_minus)
  with False s nat_of_digits_str_nat [of "nat i"] show ?thesis
    by (simp add: str_int_def decimal_int_def)
qed

lemma decode_none:
  assumes u: "take 2 unnamed = ''__''"
  shows "decode_col_name lib unnamed ''_N'' = Inr NNone"
proof -
  have "decode_col_name lib unnamed (CHR ''_'' # CHR ''N'' # []) = Inr NNone"
    by (subst decode_tag [OF u]) simp_all
  then show ?thesis by simp
qed

lemma decode_int:
  assumes u: "take 2 unnamed = ''__''"
  shows "decode_col_name lib unnamed (''_I'' @ s) = map_sum id NInt (int_of_str lib s)"
proof -
  have "decode_col_name lib unnamed (CHR ''_'' # CHR ''I'' # s) = map_sum id NInt (int_of_str lib s)"
    by (subst decode_tag [OF u]) simp_all
  then show ?thesis by simp
qed

lemma decode_float:
  assumes u: "take 2 unnamed = ''__''"
  shows "decode_col_name lib unnamed (''_F'' @ s) = map_sum id NFloat (float_of_str lib s)"
proof -
  have "decode_col_name lib unnamed (CHR ''_'' # CHR ''F'' # s) = map_sum id NFloat (float_of_str lib s)"
    by (subst decode_tag [OF u]) simp_all
  then show ?thesis by simp
qed

lemma has_S_append:
  "has_S (x @ y) \<longleftrightarrow>
     has_S x \<or> has_S y \<or> (x \<noteq> [] \<and> y \<noteq> [] \<and> last x = CHR ''_'' \<and> hd y = CHR ''S'')"
proof (induction x rule: has_S.induct)
  case (1 c d cs)
  then show ?case by auto
next
  case 3
  then show ?case by simp
next
  case (2 c)
  then show ?case by (cases y) auto
qed

lemma tame_append: "tame x \<Longrightarrow> tame y \<Longrightarrow> tame (x @ y)"
  by (cases "y = []") (auto simp: tame_def has_S_append)

lemma tame_Nil: "tame []"
  by (simp add: tame_def)

lemma no_underscore_has_S: "CHR ''_'' \<notin> set x \<Longrightarrow> \<not> has_S x"
  by (induction x rule: has_S.induct) auto

lemma tame_no_underscore:
  assumes "CHR ''_'' \<notin> set x"
  shows "tame x"
proof (cases "x = []")
  case True
  then show ?thesis by (simp add: tame_def)
next
  case False
  then have "last x \<in> set x" by (rule last_in_set)
  with assms have "last x \<noteq> CHR ''_''" by metis
  with no_underscore_has_S [OF assms] show ?thesis by (simp add: tame_def)
qed

lemma alnum_no_underscore: "\<forall>c\<in>set x. is_alnum c \<Longrightarrow> CHR ''_'' \<notin> set x"
  using not_alnum_underscore by auto

lemma digit_alnum: "d < 10 \<Longrightarrow> is_alnum (digit_char d)"
  by (simp add: is_alnum_def of_char_digit)

lemma tame_sym: "s < 64 \<Longrightarrow> tame (BASE_LIST ! s) \<and> (\<forall>c\<in>set (BASE_LIST ! s). name_char c)"
proof -
  have a: "is_alnum CHR ''A''" "is_alnum CHR ''B''" by (simp_all add: is_alnum_def)
  assume "s < 64"
  from sym_ok [OF this] show ?thesis
    unfolding sym_ok_def
    by (auto simp: tame_def name_char_def not_alnum_underscore a split: list.splits)
qed

lemma tame_chunk_syms: "tame (chunk_syms n nb) \<and> (\<forall>c\<in>set (chunk_syms n nb). name_char c)"
proof -
  have "tame (concat (map (\<lambda>j. BASE_LIST ! sym_at n j) js)) \<and>
      (\<forall>c\<in>set (concat (map (\<lambda>j. BASE_LIST ! sym_at n j) js)). name_char c)" for js
  proof (induction js)
    case Nil
    then show ?case by (simp add: tame_Nil)
  next
    case (Cons j js)
    from tame_sym [OF sym_at_less, of n j] Cons show ?case
      by (auto intro: tame_append)
  qed
  from this [of "[0..<nb + 1]"] show ?thesis unfolding chunk_syms_eq .
qed

lemma tame_tail: "t \<le> 3 \<Longrightarrow> tame [CHR ''_'', digit_char t] \<and> (\<forall>c\<in>set [CHR ''_'', digit_char t]. name_char c)"
proof -
  assume "t \<le> 3"
  then have t: "t < 10" by simp
  have a: "is_alnum (digit_char t)" by (rule digit_alnum [OF t])
  then have u: "digit_char t \<noteq> CHR ''_''" using not_alnum_underscore by metis
  have s: "digit_char t \<noteq> CHR ''S''"
  proof
    assume "digit_char t = CHR ''S''"
    then have "(of_char (digit_char t) :: nat) = of_char CHR ''S''" by simp
    with t show False by (simp add: of_char_digit)
  qed
  from a u s show ?thesis by (simp add: tame_def name_char_def)
qed

lemma tame_quote_loop:
  "p \<le> 3 \<Longrightarrow> tame (quote_loop bs p) \<and> (\<forall>c\<in>set (quote_loop bs p). name_char c)"
proof (induction bs p rule: quote_loop.induct)
  case (1 chars nbytes)
  show ?case
  proof (cases "chars = []")
    case True
    with "1.prems" tame_tail [of nbytes] show ?thesis by (simp add: quote_loop_Nil)
  next
    case False
    define nb where "nb = min (length chars) 3"
    have "nb \<le> 3" by (simp add: nb_def)
    note ih = "1.IH" [OF False nb_def refl this]
    have "quote_loop chars nbytes =
        chunk_syms (chunk_int (map of_char (take nb chars))) nb @ quote_loop (drop nb chars) nb"
      using False by (subst quote_loop.simps) (simp add: Let_def nb_def)
    with ih tame_chunk_syms [of "chunk_int (map of_char (take nb chars))" nb] show ?thesis
      by (auto intro: tame_append)
  qed
qed

lemma tame_quote: "tame (quoted r) \<and> (\<forall>c\<in>set (quoted r). name_char c)"
proof -
  have "tame ''_Q''" "\<forall>c\<in>set ''_Q''. name_char c"
    by (simp_all add: tame_def name_char_def is_alnum_def)
  moreover from tame_quote_loop [of 0 r]
  have "tame (quote_loop r 0)" "\<forall>c\<in>set (quote_loop r 0). name_char c" by simp_all
  ultimately have "tame (''_Q'' @ quote_loop r 0)"
    "\<forall>c\<in>set (''_Q'' @ quote_loop r 0). name_char c"
    by (auto intro: tame_append simp del: append_Cons)
  then show ?thesis unfolding quoted_def by blast
qed

lemma tame_alnum: "\<forall>c\<in>set x. is_alnum c \<Longrightarrow> tame x \<and> (\<forall>c\<in>set x. name_char c)"
  using tame_no_underscore [OF alnum_no_underscore] by (auto simp: name_char_def)

lemma tame_quote_parts: "tame (quoted_parts s) \<and> (\<forall>c\<in>set (quoted_parts s). name_char c)"
proof (induction s rule: quoted_parts.induct)
  case (1 s)
  have al: "\<forall>c\<in>set (takeWhile is_alnum s). is_alnum c" by (auto dest: set_takeWhileD)
  show ?case
  proof (cases "dropWhile is_alnum s = []")
    case True
    then have "\<forall>c\<in>set s. is_alnum c" by (metis dropWhile_eq_Nil_conv)
    from tame_alnum [OF this] quote_parts_plain [OF True] show ?thesis by simp
  next
    case False
    note st = quote_parts_step [OF False]
    from "1.IH" [OF refl refl False] tame_alnum [OF al]
      tame_quote [of "takeWhile (\<lambda>c. \<not> is_alnum c) (dropWhile is_alnum s)"]
    show ?thesis
      unfolding st by (auto intro!: tame_append)
  qed
qed

lemma split_S_sep:
  "\<not> has_S x \<Longrightarrow> split_S (x @ CHR ''_'' # CHR ''S'' # t) = x # split_S t"
proof (induction x rule: has_S.induct)
  case (1 c d cs)
  then show ?case by auto
next
  case 3
  then show ?case by simp
next
  case (2 c)
  then show ?case by simp
qed

lemma split_S_single: "\<not> has_S x \<Longrightarrow> split_S x = [x]"
  by (induction x rule: has_S.induct) auto

lemma split_S_join_S:
  "xs \<noteq> [] \<Longrightarrow> \<forall>x\<in>set xs. \<not> has_S x \<Longrightarrow> split_S (join_S xs) = xs"
proof (induction xs rule: join_S.induct)
  case 1
  then show ?case by simp
next
  case (2 x)
  then show ?case by (simp add: split_S_single)
next
  case (3 x y ys)
  then show ?case by (simp add: split_S_sep)
qed

lemma collect_Inr: "collect (map Inr xs) = Inr xs"
  by (induction xs) simp_all

lemma collect_InrD: "collect xs = Inr ys \<Longrightarrow> xs = map Inr ys"
proof (induction xs arbitrary: ys)
  case Nil
  then show ?case by simp
next
  case (Cons x xs)
  from Cons.prems obtain v vs where x: "x = Inr v" and c: "collect xs = Inr vs" and ys: "ys = v # vs"
    by (auto split: sum.splits)
  from Cons.IH [OF c] x ys show ?case by simp
qed

lemma str_int_no_underscore: "CHR ''_'' \<notin> set (str_int i)"
proof -
  have "CHR ''_'' \<notin> set (str_nat n)" for n
  proof
    assume "CHR ''_'' \<in> set (str_nat n)"
    with str_nat_digits [of n] obtain d where "d < 10" and "CHR ''_'' = digit_char d" by auto
    with digit_alnum [of d] not_alnum_underscore show False by simp
  qed
  then show ?thesis by (simp add: str_int_def)
qed

lemma has_S_tag: "c \<noteq> CHR ''_'' \<Longrightarrow> has_S (c # s) = has_S s"
  by (cases s) auto

lemma str_of_int_readable: "int_readable lib i \<Longrightarrow> str_of_int lib i = Inr (str_int i)"
  by (auto simp: int_readable_def str_of_int_def)

lemma str_no_S:
  assumes v: "utf8_valid s" and a: "reserved unnamed s \<longrightarrow> \<not> has_S s"
    and e: "encode_col_name lib unnamed (NStr s) True = Inr e"
  shows "\<not> has_S e"
proof (cases "s = []")
  case True
  with e show ?thesis by auto
next
  case ne: False
  show ?thesis
  proof (cases "reserved unnamed s")
    case True
    with a e ne show ?thesis by (simp add: encode_str_cases del: encode_col_name.simps)
  next
    case nr: False
    show ?thesis
    proof (cases "dropWhile is_alnum s = []")
      case True
      then have "\<forall>c\<in>set s. is_alnum c" by (metis dropWhile_eq_Nil_conv)
      from tame_alnum [OF this] have h: "\<not> has_S s" by (simp add: tame_def)
      have "encode_col_name lib unnamed (NStr s) True = Inr s"
        using ne nr True by (auto simp: encode_str_cases simp del: encode_col_name.simps)
      with e have "e = s" by simp
      with h show ?thesis by simp
    next
      case False
      from tame_quote_parts [of s] have h: "\<not> has_S (quoted_parts s)" by (simp add: tame_def)
      have "encode_col_name lib unnamed (NStr s) True = quote_parts s"
        using ne nr False
        by (simp add: encode_str_cases del: encode_col_name.simps dropWhile_eq_Nil_conv)
      with e have "e = quoted_parts s" by (simp add: quote_parts_pure [OF v])
      with h show ?thesis by simp
    qed
  qed
qed

lemma atom_encode:
  assumes u: "take 2 unnamed = ''__''" and a: "atom lib unnamed n"
  shows "\<exists>e. encode_col_name lib unnamed n True = Inr e \<and>
    decode_col_name lib unnamed e = Inr n \<and> \<not> has_S e"
proof (cases n)
  case NNone
  then show ?thesis using decode_none [OF u, of lib] by simp
next
  case (NInt i)
  with a have r: "int_readable lib i" by simp
  then have "int_of_str lib (str_int i) = Inr i" by (simp add: int_readable_def)
  with decode_int [OF u, of lib "str_int i"]
  have "decode_col_name lib unnamed (''_I'' @ str_int i) = Inr (NInt i)" by simp
  moreover have "\<not> has_S (CHR ''_'' # CHR ''I'' # str_int i)"
    using no_underscore_has_S [OF str_int_no_underscore, of i] by (simp add: has_S_tag)
  ultimately show ?thesis using NInt str_of_int_readable [OF r] by simp
next
  case (NFloat x)
  with a have "float_of_str lib (str_of_float lib x) = Inr x" and "\<not> has_S (str_of_float lib x)"
    by (simp_all add: float_readable_def)
  with decode_float [OF u, of lib "str_of_float lib x"] NFloat show ?thesis
    by (simp add: has_S_tag)
next
  case (NStamp d)
  with a show ?thesis by simp
next
  case (NStr s)
  with a have v: "utf8_valid s" and r: "reserved unnamed s \<longrightarrow> \<not> has_S s" by simp_all
  from decode_str [OF u v, of lib] obtain e where
    e: "encode_col_name lib unnamed (NStr s) True = Inr e"
    and d: "decode_col_name lib unnamed e = Inr (NStr s)" by blast
  from str_no_S [OF v r e] e d NStr show ?thesis by blast
next
  case (NTuple ns)
  with a show ?thesis by simp
qed

lemma atoms_encode:
  assumes u: "take 2 unnamed = ''__''"
  shows "list_all (atom lib unnamed) ns \<Longrightarrow>
    \<exists>dst. map (\<lambda>n. encode_col_name lib unnamed n True) ns = map Inr dst \<and>
      map (decode_col_name lib unnamed) dst = map Inr ns \<and> (\<forall>d\<in>set dst. \<not> has_S d) \<and>
      length dst = length ns"
proof (induction ns)
  case Nil
  then show ?case by simp
next
  case (Cons n ns)
  from Cons.prems have a: "atom lib unnamed n" and as: "list_all (atom lib unnamed) ns" by simp_all
  from atom_encode [OF u a] obtain e where
    e: "encode_col_name lib unnamed n True = Inr e" "decode_col_name lib unnamed e = Inr n" "\<not> has_S e"
    by blast
  from Cons.IH [OF as] obtain dst where
    d: "map (\<lambda>n. encode_col_name lib unnamed n True) ns = map Inr dst"
      "map (decode_col_name lib unnamed) dst = map Inr ns" "\<forall>d\<in>set dst. \<not> has_S d"
      "length dst = length ns"
    by blast
  show ?case
    by (rule exI [of _ "e # dst"]) (use e d in simp)
qed

lemma tuple_encode:
  assumes u: "take 2 unnamed = ''__''" and ne: "ns \<noteq> []" and as: "list_all (atom lib unnamed) ns"
  shows "\<exists>e. encode_col_name lib unnamed (NTuple ns) b = Inr e \<and>
    decode_col_name lib unnamed e = Inr (NTuple ns)"
proof -
  from atoms_encode [OF u as] obtain dst where
    d: "map (\<lambda>n. encode_col_name lib unnamed n True) ns = map Inr dst"
      "map (decode_col_name lib unnamed) dst = map Inr ns" "\<forall>d\<in>set dst. \<not> has_S d"
      "length dst = length ns"
    by blast
  from d(4) ne have dn: "dst \<noteq> []" by auto
  have enc: "encode_col_name lib unnamed (NTuple ns) b = Inr (''_T'' @ join_S dst)"
    by (simp add: d(1) collect_Inr)
  have sp: "split_S (join_S dst) = dst" by (rule split_S_join_S [OF dn d(3)])
  have "decode_col_name lib unnamed (CHR ''_'' # CHR ''T'' # join_S dst) = Inr (NTuple ns)"
    by (subst decode_tag [OF u]) (simp_all add: sp d(2) collect_Inr)
  with enc show ?thesis by simp
qed

lemma stamp_encode:
  assumes u: "take 2 unnamed = ''__''" and s: "supported lib unnamed (NStamp d)"
  shows "\<exists>e. encode_col_name lib unnamed (NStamp d) b = Inr e \<and>
    decode_col_name lib unnamed e = Inr (NStamp d)"
proof -
  let ?t = "NTuple [NFloat (timestamp lib d), NStr (tz_str lib d)]"
  from s have as: "list_all (atom lib unnamed) [NFloat (timestamp lib d), NStr (tz_str lib d)]"
    and f: "fromtimestamp lib (NFloat (timestamp lib d)) (NStr (tz_str lib d)) = Inr d"
    by simp_all
  from tuple_encode [OF u _ as, of True] obtain e where
    e: "encode_col_name lib unnamed ?t True = Inr e" and dc: "decode_col_name lib unnamed e = Inr ?t"
    by blast
  have enc: "encode_col_name lib unnamed (NStamp d) b = Inr (''_D'' @ e)"
    using e by (simp del: encode_col_name.simps(5,6) add: encode_col_name.simps(4))
  have "decode_col_name lib unnamed (CHR ''_'' # CHR ''D'' # e) = Inr (NStamp d)"
    by (subst decode_tag [OF u]) (simp_all add: dc f)
  with enc show ?thesis by simp
qed

lemma supported_encode:
  assumes u: "take 2 unnamed = ''__''" and s: "supported lib unnamed n"
  shows "\<exists>e. encode_col_name lib unnamed n True = Inr e \<and> decode_col_name lib unnamed e = Inr n"
proof (cases n)
  case NNone
  then show ?thesis using atom_encode [OF u, of lib n] by auto
next
  case (NInt i)
  with s show ?thesis using atom_encode [OF u, of lib n] by auto
next
  case (NFloat x)
  with s have "float_of_str lib (str_of_float lib x) = Inr x" by (simp add: float_readable_def)
  with decode_float [OF u, of lib "str_of_float lib x"] NFloat show ?thesis by simp
next
  case (NStamp d)
  with s stamp_encode [OF u, of lib d True] show ?thesis by simp
next
  case (NStr x)
  with s decode_str [OF u, of x lib] show ?thesis by simp
next
  case (NTuple ns)
  with s tuple_encode [OF u, of ns lib True] show ?thesis by simp
qed

lemma join_S_chars:
  "list_all name_char (join_S xs) = (\<forall>x\<in>set xs. list_all name_char x)"
  by (induction xs rule: join_S.induct) (auto simp: name_char_def is_alnum_def)

lemma chars_items:
  assumes "map f ns = map Inr dst"
    and "\<And>n d. n \<in> set ns \<Longrightarrow> f n = Inr d \<Longrightarrow> Q d = P n"
  shows "(\<forall>d\<in>set dst. Q d) = list_all P ns"
  using assms
proof (induction ns arbitrary: dst)
  case Nil
  then show ?case by simp
next
  case (Cons n ns)
  from Cons.prems(1) obtain d dst' where dst: "dst = d # dst'" and f: "f n = Inr d"
    and m: "map f ns = map Inr dst'"
    by (cases dst) auto
  from Cons.prems(2) [of n d] f have "Q d = P n" by simp
  moreover from Cons.IH [OF m] Cons.prems(2) have "(\<forall>d\<in>set dst'. Q d) = list_all P ns" by simp
  ultimately show ?case by (simp add: dst)
qed

lemma str_nat_chars: "list_all name_char (str_nat n)"
  using str_nat_digits [of n] digit_alnum by (auto simp: list_all_iff name_char_def)

lemma str_int_chars: "list_all name_char (str_int i) = (0 \<le> i)"
  by (simp add: str_int_def str_nat_chars name_char_def is_alnum_def)

lemma str_chars:
  assumes e: "encode_col_name lib unnamed (NStr s) True = Inr e"
  shows "list_all name_char e = (reserved unnamed s \<longrightarrow> list_all name_char s)"
proof (cases "s = []")
  case True
  with e show ?thesis by (auto simp: name_char_def is_alnum_def)
next
  case ne: False
  show ?thesis
  proof (cases "reserved unnamed s")
    case True
    with e ne show ?thesis by (simp add: encode_str_cases del: encode_col_name.simps)
  next
    case nr: False
    show ?thesis
    proof (cases "dropWhile is_alnum s = []")
      case True
      then have al: "\<forall>c\<in>set s. is_alnum c" by (metis dropWhile_eq_Nil_conv)
      have "encode_col_name lib unnamed (NStr s) True = Inr s"
        using ne nr True by (auto simp: encode_str_cases simp del: encode_col_name.simps)
      with e have "e = s" by simp
      with tame_alnum [OF al] nr show ?thesis by (simp add: list_all_iff)
    next
      case False
      have "encode_col_name lib unnamed (NStr s) True = quote_parts s"
        using ne nr False
        by (simp add: encode_str_cases del: encode_col_name.simps dropWhile_eq_Nil_conv)
      with e have "e = quoted_parts s" by (simp add: quote_parts_Inr)
      with tame_quote_parts [of s] nr show ?thesis by (simp add: list_all_iff)
    qed
  qed
qed

lemma name_char_tags [simp]:
  "name_char CHR ''_''" "name_char CHR ''N''" "name_char CHR ''I''" "name_char CHR ''E''"
  "name_char CHR ''T''" "name_char CHR ''S''" "name_char CHR ''F''" "name_char CHR ''D''"
  by (simp_all add: name_char_def is_alnum_def)

lemma encode_chars:
  "encode_col_name lib unnamed n True = Inr e \<Longrightarrow> list_all name_char e = plain lib unnamed n"
proof (induction n arbitrary: e)
  case NNone
  then show ?case by auto
next
  case (NInt i)
  then show ?case
    by (auto simp: str_of_int_def str_int_chars split: if_splits)
next
  case (NFloat x)
  then show ?case by auto
next
  case (NStamp d)
  from NStamp obtain ez where
    z: "encode_col_name lib unnamed (NStr (tz_str lib d)) True = Inr ez"
    and e: "e = ''_D'' @ ''_T'' @ (''_F'' @ str_of_float lib (timestamp lib d)) @ ''_S'' @ ez"
    by (auto simp del: encode_col_name.simps(6) split: sum.splits)
  from str_chars [OF z] show ?case by (simp add: e)
next
  case (NStr s)
  from str_chars [OF NStr] show ?case by simp
next
  case (NTuple ns)
  from NTuple.prems obtain dst where
    c: "collect (map (\<lambda>n. encode_col_name lib unnamed n True) ns) = Inr dst"
    and e: "e = ''_T'' @ join_S dst"
    by (auto split: sum.splits)
  from collect_InrD [OF c] have m: "map (\<lambda>n. encode_col_name lib unnamed n True) ns = map Inr dst" .
  have "(\<forall>d\<in>set dst. list_all name_char d) = list_all (plain lib unnamed) ns"
    by (rule chars_items [OF m]) (rule NTuple.IH)
  then show ?case by (simp add: e join_S_chars)
qed

lemma example_int_readable:
  "length (str_nat (nat \<bar>i\<bar>)) \<le> 4300 \<Longrightarrow> int_readable example_library i"
  by (simp add: int_readable_def example_library_def decimal_int_str_int)

lemma int_over_limit:
  "0 < int_max_str_digits lib \<Longrightarrow> int_max_str_digits lib < length (str_nat (nat \<bar>i\<bar>)) \<Longrightarrow>
   encode_col_name lib unnamed (NInt i) b = Inl ValueError"
  by (simp add: str_of_int_def)

lemma negative_int_minus_sign:
  "i < 0 \<Longrightarrow> encode_col_name lib unnamed (NInt i) True = Inr e \<Longrightarrow> \<not> list_all name_char e"
  using encode_chars [of lib unnamed "NInt i" e] by simp

lemma lone_surrogate_raises:
  assumes "s \<noteq> []" and "\<not> reserved unnamed s" and "dropWhile is_alnum s \<noteq> []"
    and "\<not> utf8_valid (takeWhile (\<lambda>c. \<not> is_alnum c) (dropWhile is_alnum s))"
  shows "encode_col_name lib unnamed (NStr s) True = Inl UnicodeEncodeError"
proof -
  have "encode_col_name lib unnamed (NStr s) True = quote_parts s"
    using assms(1,2,3)
    by (simp add: encode_str_cases del: encode_col_name.simps dropWhile_eq_Nil_conv)
  also have "\<dots> =
     (let a = takeWhile is_alnum s; r = dropWhile is_alnum s
      in if r = [] then Inr a
         else
           (case quote (takeWhile (\<lambda>c. \<not> is_alnum c) r) of
              Inl e \<Rightarrow> Inl e
            | Inr q \<Rightarrow>
                (case quote_parts (dropWhile (\<lambda>c. \<not> is_alnum c) r) of
                   Inl e \<Rightarrow> Inl e
                 | Inr t \<Rightarrow> Inr (a @ q @ t))))"
    by (rule quote_parts.simps)
  also have "\<dots> = Inl UnicodeEncodeError"
    unfolding Let_def using assms(3,4) by (simp add: quote_def del: dropWhile_eq_Nil_conv)
  finally show ?thesis .
qed

lemma decode_empty: "decode_col_name lib unnamed [] = Inr (NStr [])"
  by (subst decode_plain) (simp_all add: unquote_all.simps)

lemma empty_tuple_decoded:
  assumes u: "take 2 unnamed = ''__''"
  shows "encode_col_name lib unnamed (NTuple []) True = Inr ''_T'' \<and>
    decode_col_name lib unnamed ''_T'' = Inr (NTuple [NStr []])"
proof -
  have "decode_col_name lib unnamed (CHR ''_'' # CHR ''T'' # []) = Inr (NTuple [NStr []])"
    by (subst decode_tag [OF u]) (simp_all add: decode_empty)
  then show ?thesis by simp
qed

lemma reserved_item_split:
  assumes u: "take 2 unnamed = ''__''"
  shows "encode_col_name lib unnamed (NTuple [NStr ''__index___S'']) True = Inr ''_T__index___S'' \<and>
    decode_col_name lib unnamed ''_T__index___S'' = Inr (NTuple [NStr ''__index__'', NStr []])"
proof -
  have i: "decode_col_name lib unnamed ''__index__'' = Inr (NStr ''__index__'')"
    by (rule decode_reserved) (simp_all add: reserved_def startswith_def IDX_COL_NAME_def)
  have "decode_col_name lib unnamed (CHR ''_'' # CHR ''T'' # ''__index___S'') =
      Inr (NTuple [NStr ''__index__'', NStr []])"
    by (subst decode_tag [OF u]) (simp_all add: decode_empty i)
  moreover have "encode_col_name lib unnamed (NTuple [NStr ''__index___S'']) True = Inr ''_T__index___S''"
    by (simp add: startswith_def IDX_COL_NAME_def)
  ultimately show ?thesis by simp
qed

lemma example_supported:
  "supported example_library ''__reduced__''
     (NTuple [NStr ''a b'', NInt (- 5), NNone, NFloat (1, 5), NStr ''__rowid__''])"
  "supported example_library ''__reduced__'' (NStamp ((1, 5), ''UTC''))"
  "supported example_library ''__reduced__'' (NTuple [NStr ''a b'', NInt 5, NNone])"
  "supported example_library ''__reduced__'' (NFloat (1, 5))"
  "plain example_library ''__reduced__'' (NTuple [NStr ''a b'', NInt 5, NNone])"
  "\<not> plain example_library ''__reduced__'' (NFloat (1, 5))"
  "reserved ''__reduced__'' ''__rowid__''"
  by code_simp+

lemma stamp_in_tuple_raises:
  assumes u: "take 2 unnamed = ''__''" and s: "supported lib unnamed (NStamp d)"
    and e: "encode_col_name lib unnamed (NTuple (NStamp d # ns)) True = Inr e"
  shows "decode_col_name lib unnamed e = Inl IndexError"
proof -
  define f where "f = ''_F'' @ str_of_float lib (timestamp lib d)"
  from s have fr: "float_of_str lib (str_of_float lib (timestamp lib d)) = Inr (timestamp lib d)"
    and fs: "\<not> has_S (str_of_float lib (timestamp lib d))"
    by (simp_all add: float_readable_def)
  from e obtain ez dst where
    e': "e = ''_T'' @ join_S ((''_D'' @ ''_T'' @ f @ ''_S'' @ ez) # dst)"
    by (auto simp: f_def simp del: encode_col_name.simps(6) split: sum.splits)
  have nf2: "\<not> has_S f" using fs by (simp add: has_S_tag f_def)
  have df: "decode_col_name lib unnamed f = Inr (NFloat (timestamp lib d))"
    using decode_float [OF u, of lib "str_of_float lib (timestamp lib d)"] fr by (simp add: f_def)
  have nf: "\<not> has_S (''_D_T'' @ f)"
  proof -
    have "has_S (''_D_T'' @ f) = has_S (CHR ''T'' # f)" by simp
    also have "\<dots> = has_S f" by (rule has_S_tag) simp
    finally show ?thesis using nf2 by simp
  qed
  obtain rest where j: "join_S ((''_D'' @ ''_T'' @ f @ ''_S'' @ ez) # dst) =
      (''_D_T'' @ f) @ CHR ''_'' # CHR ''S'' # rest"
    by (cases dst) auto
  have sp: "split_S (join_S ((''_D'' @ ''_T'' @ f @ ''_S'' @ ez) # dst)) = (''_D_T'' @ f) # split_S rest"
    unfolding j by (rule split_S_sep [OF nf])
  have "decode_col_name lib unnamed (CHR ''_'' # CHR ''T'' # f) =
      (case collect (map (decode_col_name lib unnamed) (split_S f)) of
         Inl e \<Rightarrow> Inl e | Inr ns \<Rightarrow> Inr (NTuple ns))"
    by (subst decode_tag [OF u]) simp_all
  also have "\<dots> = Inr (NTuple [NFloat (timestamp lib d)])"
    by (simp only: split_S_single [OF nf2]) (simp add: df)
  finally have inner: "decode_col_name lib unnamed (CHR ''_'' # CHR ''T'' # f) =
      Inr (NTuple [NFloat (timestamp lib d)])" .
  have "decode_col_name lib unnamed (CHR ''_'' # CHR ''D'' # CHR ''_'' # CHR ''T'' # f) =
      (case decode_col_name lib unnamed (CHR ''_'' # CHR ''T'' # f) of
          Inl e \<Rightarrow> Inl e
        | Inr stamp \<Rightarrow>
            (case getitem stamp 0 of
               Inl e \<Rightarrow> Inl e
             | Inr a \<Rightarrow>
                 (case getitem stamp 1 of
                    Inl e \<Rightarrow> Inl e
                  | Inr b \<Rightarrow> map_sum id NStamp (fromtimestamp lib a b))))"
    by (subst decode_tag [OF u]) simp_all
  also have "\<dots> = Inl IndexError"
    by (simp only: inner) simp
  finally have first: "decode_col_name lib unnamed (''_D_T'' @ f) = Inl IndexError" by simp
  have "decode_col_name lib unnamed
      (CHR ''_'' # CHR ''T'' # join_S ((''_D'' @ ''_T'' @ f @ ''_S'' @ ez) # dst)) =
      (case collect (map (decode_col_name lib unnamed)
          (split_S (join_S ((''_D'' @ ''_T'' @ f @ ''_S'' @ ez) # dst)))) of
         Inl e \<Rightarrow> Inl e | Inr ns \<Rightarrow> Inr (NTuple ns))"
    by (subst decode_tag [OF u]) simp_all
  also have "\<dots> = Inl IndexError"
    by (simp only: sp) (simp add: first del: append_Cons)
  finally show ?thesis by (simp only: e' append_Cons append_Nil)
qed

subsection \<open>Encoding and decoding\<close>

text \<open>
  Claim C10, as stated, fails: a string that starts with \<^verbatim>\<open>IDX_COL_NAME\<close> is returned
  as it is, so the encoded form of \<^verbatim>\<open>"__index__ a"\<close> has a blank in it, whatever the
  library and the label of the unnamed series; and a tuple with the reserved string
  \<^verbatim>\<open>"__index___S"\<close> decodes to a tuple of two strings.
\<close>

theorem reserved_name_counterexample:
  "(\<forall>lib unnamed. encode_col_name lib unnamed (NStr ''__index__ a'') True = Inr ''__index__ a'') \<and>
   \<not> list_all name_char ''__index__ a'' \<and>
   (\<forall>lib. encode_col_name lib ''__reduced__'' (NTuple [NStr ''__index___S'']) True =
        Inr ''_T__index___S'' \<and>
      decode_col_name lib ''__reduced__'' ''_T__index___S'' =
        Inr (NTuple [NStr ''__index__'', NStr []]))"
proof -
  have "encode_col_name lib unnamed (NStr ''__index__ a'') True = Inr ''__index__ a''"
    for lib :: "('a, 'b) library" and unnamed
    by (simp add: startswith_def IDX_COL_NAME_def)
  moreover have "\<not> list_all name_char ''__index__ a''"
    by (simp add: name_char_def is_alnum_def)
  moreover have "take 2 ''__reduced__'' = ''__''" by simp
  note reserved_item_split [OF this]
  ultimately show ?thesis by blast
qed

text \<open>
  Claim C10, amended: let the label of the unnamed series start with two underscores.
  Encoding succeeds and decoding the encoded name returns the name, for \<^verbatim>\<open>None\<close>, for
  an int and a float that the library reads back from their \<^verbatim>\<open>str\<close>, for a str with a
  UTF-8 encoding, for a tuple, not empty, of these in which no reserved string and no float
  has the separator \<^verbatim>\<open>_S\<close> in it, and for a \<^verbatim>\<open>Timestamp\<close> that
  \<^verbatim>\<open>Timestamp.fromtimestamp\<close> returns for its timestamp and time zone, these two being
  such items. Whenever encoding succeeds, the encoded form has letters, digits and
  underscores only exactly for \<^verbatim>\<open>None\<close>, an int from 0 on, a float and a reserved
  string with no other character in their \<^verbatim>\<open>str\<close>, every other string, a
  \<^verbatim>\<open>Timestamp\<close> with such a timestamp and time zone, and a tuple of such names. A
  reserved string is its own encoded form.
\<close>

theorem encode_decode_col_name:
  assumes "take 2 unnamed = ''__''"
  shows "(supported lib unnamed n \<longrightarrow>
            (\<exists>e. encode_col_name lib unnamed n True = Inr e \<and>
                 decode_col_name lib unnamed e = Inr n)) \<and>
         (\<forall>e. encode_col_name lib unnamed n True = Inr e \<longrightarrow>
            list_all name_char e = plain lib unnamed n) \<and>
         (reserved unnamed s \<and> s \<noteq> [] \<longrightarrow> encode_col_name lib unnamed (NStr s) True = Inr s)"
  using supported_encode [OF assms, of lib n] encode_chars [of lib unnamed n]
  by (simp add: encode_str_cases del: encode_col_name.simps)

theorem encode_decode_col_name_witness:
  "take 2 ''__reduced__'' = ''__'' \<and>
   supported example_library ''__reduced__''
     (NTuple [NStr ''a b'', NInt (- 5), NNone, NFloat (1, 5), NStr ''__rowid__'']) \<and>
   (\<exists>e. encode_col_name example_library ''__reduced__''
          (NTuple [NStr ''a b'', NInt (- 5), NNone, NFloat (1, 5), NStr ''__rowid__'']) True = Inr e \<and>
        decode_col_name example_library ''__reduced__'' e =
          Inr (NTuple [NStr ''a b'', NInt (- 5), NNone, NFloat (1, 5), NStr ''__rowid__''])) \<and>
   supported example_library ''__reduced__'' (NStamp ((1, 5), ''UTC'')) \<and>
   (\<exists>e. encode_col_name example_library ''__reduced__'' (NStamp ((1, 5), ''UTC'')) True = Inr e \<and>
        decode_col_name example_library ''__reduced__'' e = Inr (NStamp ((1, 5), ''UTC''))) \<and>
   plain example_library ''__reduced__'' (NTuple [NStr ''a b'', NInt 5, NNone]) \<and>
   (\<exists>e. encode_col_name example_library ''__reduced__'' (NTuple [NStr ''a b'', NInt 5, NNone]) True = Inr e \<and>
        list_all name_char e) \<and>
   \<not> plain example_library ''__reduced__'' (NFloat (1, 5)) \<and>
   (\<exists>e. encode_col_name example_library ''__reduced__'' (NFloat (1, 5)) True = Inr e \<and>
        \<not> list_all name_char e) \<and>
   reserved ''__reduced__'' ''__rowid__'' \<and>
   encode_col_name example_library ''__reduced__'' (NStr ''__rowid__'') True = Inr ''__rowid__''"
proof -
  have u: "take 2 ''__reduced__'' = ''__''" by simp
  note s = example_supported
  from encode_decode_col_name [OF u, of example_library
      "NTuple [NStr ''a b'', NInt (- 5), NNone, NFloat (1, 5), NStr ''__rowid__'']"] s(1)
  have a: "\<exists>e. encode_col_name example_library ''__reduced__''
          (NTuple [NStr ''a b'', NInt (- 5), NNone, NFloat (1, 5), NStr ''__rowid__'']) True = Inr e \<and>
        decode_col_name example_library ''__reduced__'' e =
          Inr (NTuple [NStr ''a b'', NInt (- 5), NNone, NFloat (1, 5), NStr ''__rowid__''])"
    by blast
  from encode_decode_col_name [OF u, of example_library "NStamp ((1, 5), ''UTC'')"] s(2)
  have b: "\<exists>e. encode_col_name example_library ''__reduced__'' (NStamp ((1, 5), ''UTC'')) True = Inr e \<and>
        decode_col_name example_library ''__reduced__'' e = Inr (NStamp ((1, 5), ''UTC''))"
    by blast
  from encode_decode_col_name [OF u, of example_library "NTuple [NStr ''a b'', NInt 5, NNone]"] s(3,5)
  have c: "\<exists>e. encode_col_name example_library ''__reduced__'' (NTuple [NStr ''a b'', NInt 5, NNone]) True = Inr e \<and>
        list_all name_char e"
    by blast
  from encode_decode_col_name [OF u, of example_library "NFloat (1, 5)"] s(4,6)
  have d: "\<exists>e. encode_col_name example_library ''__reduced__'' (NFloat (1, 5)) True = Inr e \<and>
        \<not> list_all name_char e"
    by blast
  from encode_decode_col_name [OF u, of example_library _ "''__rowid__''"] s(7)
  have e: "encode_col_name example_library ''__reduced__'' (NStr ''__rowid__'') True = Inr ''__rowid__''"
    by blast
  from u s a b c d e show ?thesis by blast
qed
end
